theory Spec2Isabelle
  imports Complex_Main "HOL-Library.AList"
begin

section \<open>The file system the operations run on\<close>

text \<open>
  The core of the image editor (\<^verbatim>\<open>core/file_manager.py\<close>, \<^verbatim>\<open>core/image_processor.py\<close>)
  works on directory trees through \<^verbatim>\<open>os\<close>, \<^verbatim>\<open>shutil\<close> and Pillow. The tree is modelled as a
  value: a path is the list of its components, a directory holds its entries in listing
  order, a file holds its content. Two attributes make the \<^verbatim>\<open>except\<close> branches of the
  source reachable: a file may be unreadable (\<^verbatim>\<open>open\<close> raises), and a file or directory
  may be protected against removal and renaming (\<^verbatim>\<open>os.remove\<close>, \<^verbatim>\<open>os.rmdir\<close>,
  \<^verbatim>\<open>shutil.move\<close> raise). Symbolic links are not modelled.
\<close>

type_synonym path = "string list"

datatype 'c node =
    File bool bool 'c
  | Dir bool "(string \<times> 'c node) list"

text \<open>\<open>File readable removable content\<close>; \<open>Dir removable entries\<close>.\<close>

datatype pyerror =
    FileNotFoundError
  | PermissionError
  | IsADirectoryError
  | NotADirectoryError
  | FileExistsError
  | DirectoryNotEmpty
  | ValueError
  | NameError
  | UnidentifiedImageError
  | SaveError
  | ShutilError
  | OverflowError

fun lookup :: "'c node \<Rightarrow> path \<Rightarrow> 'c node option" where
  "lookup n [] = Some n"
| "lookup (File r w c) (x # p) = None"
| "lookup (Dir w es) (x # p) = (case map_of es x of None \<Rightarrow> None | Some m \<Rightarrow> lookup m p)"

fun modify_at ::
  "path \<Rightarrow> ((string \<times> 'c node) list \<Rightarrow> (string \<times> 'c node) list) \<Rightarrow> 'c node \<Rightarrow> 'c node" where
  "modify_at p f (File r w c) = File r w c"
| "modify_at [] f (Dir w es) = Dir w (f es)"
| "modify_at (x # p) f (Dir w es) =
     Dir w (map (\<lambda>(n, m). if n = x then (n, modify_at p f m) else (n, m)) es)"

definition remove_entry :: "'c node \<Rightarrow> path \<Rightarrow> 'c node" where
  "remove_entry fs p =
     (if p = [] then fs else modify_at (butlast p) (filter (\<lambda>(n, m). n \<noteq> last p)) fs)"

definition put_entry :: "'c node \<Rightarrow> path \<Rightarrow> 'c node \<Rightarrow> 'c node" where
  "put_entry fs p n =
     (if p = [] then fs
      else modify_at (butlast p) (\<lambda>es. filter (\<lambda>(x, m). x \<noteq> last p) es @ [(last p, n)]) fs)"

definition os_path_exists :: "'c node \<Rightarrow> path \<Rightarrow> bool" where
  "os_path_exists fs p = (lookup fs p \<noteq> None)"

definition os_path_isdir :: "'c node \<Rightarrow> path \<Rightarrow> bool" where
  "os_path_isdir fs p = (case lookup fs p of Some (Dir w es) \<Rightarrow> True | _ \<Rightarrow> False)"

definition os_path_isfile :: "'c node \<Rightarrow> path \<Rightarrow> bool" where
  "os_path_isfile fs p = (case lookup fs p of Some (File r w c) \<Rightarrow> True | _ \<Rightarrow> False)"

definition os_listdir :: "'c node \<Rightarrow> path \<Rightarrow> pyerror + string list" where
  "os_listdir fs p =
     (case lookup fs p of
        None \<Rightarrow> Inl FileNotFoundError
      | Some (File r w c) \<Rightarrow> Inl NotADirectoryError
      | Some (Dir w es) \<Rightarrow> Inr (map fst es))"

definition open_read :: "'c node \<Rightarrow> path \<Rightarrow> pyerror + 'c" where
  "open_read fs p =
     (case lookup fs p of
        None \<Rightarrow> Inl FileNotFoundError
      | Some (Dir w es) \<Rightarrow> Inl IsADirectoryError
      | Some (File r w c) \<Rightarrow> if r then Inr c else Inl PermissionError)"

definition os_remove :: "'c node \<Rightarrow> path \<Rightarrow> pyerror + 'c node" where
  "os_remove fs p =
     (case lookup fs p of
        None \<Rightarrow> Inl FileNotFoundError
      | Some (Dir w es) \<Rightarrow> Inl IsADirectoryError
      | Some (File r w c) \<Rightarrow> if w then Inr (remove_entry fs p) else Inl PermissionError)"

definition os_rmdir :: "'c node \<Rightarrow> path \<Rightarrow> pyerror + 'c node" where
  "os_rmdir fs p =
     (case lookup fs p of
        None \<Rightarrow> Inl FileNotFoundError
      | Some (File r w c) \<Rightarrow> Inl NotADirectoryError
      | Some (Dir w es) \<Rightarrow>
          if es \<noteq> [] then Inl DirectoryNotEmpty
          else if w \<and> p \<noteq> [] then Inr (remove_entry fs p)
          else Inl PermissionError)"

text \<open>\<^verbatim>\<open>os.makedirs(name, exist_ok=True)\<close>, as the standard library defines it: make the
  parent first if it does not exist, then \<^verbatim>\<open>mkdir\<close>, whose error is dropped when the
  directory is there.\<close>

definition os_mkdir :: "'c node \<Rightarrow> path \<Rightarrow> pyerror + 'c node" where
  "os_mkdir fs p =
     (if p = [] then Inl FileExistsError
      else
        case lookup fs p of
          Some n \<Rightarrow> Inl FileExistsError
        | None \<Rightarrow>
            (case lookup fs (butlast p) of
               None \<Rightarrow> Inl FileNotFoundError
             | Some (File r w c) \<Rightarrow> Inl NotADirectoryError
             | Some (Dir w es) \<Rightarrow>
                 Inr (modify_at (butlast p) (\<lambda>es. es @ [(last p, Dir True [])]) fs)))"

function os_makedirs :: "'c node \<Rightarrow> path \<Rightarrow> pyerror + 'c node" where
  "os_makedirs fs p =
     (case (if p \<noteq> [] \<and> \<not> os_path_exists fs (butlast p)
            then (case os_makedirs fs (butlast p) of
                    Inl e \<Rightarrow> if e = FileExistsError then Inr fs else Inl e
                  | Inr fs1 \<Rightarrow> Inr fs1)
            else Inr fs) of
        Inl e \<Rightarrow> Inl e
      | Inr fs1 \<Rightarrow>
          (case os_mkdir fs1 p of
             Inl e \<Rightarrow> if os_path_isdir fs1 p then Inr fs1 else Inl e
           | Inr fs2 \<Rightarrow> Inr fs2))"
  by pat_completeness auto
termination
  by (relation "measure (\<lambda>(fs, p). length p)") auto

declare os_makedirs.simps [simp del]

subsection \<open>\<^verbatim>\<open>os.walk\<close>\<close>

text \<open>
  \<^verbatim>\<open>os.walk(top)\<close> yields one triple \<^verbatim>\<open>(root, dirs, files)\<close> per directory: top-down, a
  directory before its subdirectories; with \<^verbatim>\<open>topdown=False\<close>, after them. Entries come in
  listing order. A \<^verbatim>\<open>top\<close> that is not a directory yields nothing (the error of
  \<^verbatim>\<open>scandir\<close> is swallowed). The loops of the source remove only the file or directory they
  are visiting, whose parent has been listed by then, so the triples are those of the tree
  the walk started on.
\<close>

definition dirnames :: "(string \<times> 'c node) list \<Rightarrow> string list" where
  "dirnames es = map fst (filter (\<lambda>(n, m). case m of Dir w sub \<Rightarrow> True | File r w c \<Rightarrow> False) es)"

definition filenames :: "(string \<times> 'c node) list \<Rightarrow> string list" where
  "filenames es = map fst (filter (\<lambda>(n, m). case m of Dir w sub \<Rightarrow> False | File r w c \<Rightarrow> True) es)"

fun walk_node :: "path \<Rightarrow> 'c node \<Rightarrow> (path \<times> string list \<times> string list) list"
  and walk_subdirs :: "path \<Rightarrow> (string \<times> 'c node) list \<Rightarrow> (path \<times> string list \<times> string list) list"
  where
  "walk_node rootdir (File r w c) = []"
| "walk_node rootdir (Dir w es) = (rootdir, dirnames es, filenames es) # walk_subdirs rootdir es"
| "walk_subdirs rootdir [] = []"
| "walk_subdirs rootdir ((n, m) # es) = walk_node (rootdir @ [n]) m @ walk_subdirs rootdir es"

fun walk_node_bottomup :: "path \<Rightarrow> 'c node \<Rightarrow> (path \<times> string list \<times> string list) list"
  and walk_subdirs_bottomup ::
    "path \<Rightarrow> (string \<times> 'c node) list \<Rightarrow> (path \<times> string list \<times> string list) list"
  where
  "walk_node_bottomup rootdir (File r w c) = []"
| "walk_node_bottomup rootdir (Dir w es) =
     walk_subdirs_bottomup rootdir es @ [(rootdir, dirnames es, filenames es)]"
| "walk_subdirs_bottomup rootdir [] = []"
| "walk_subdirs_bottomup rootdir ((n, m) # es) =
     walk_node_bottomup (rootdir @ [n]) m @ walk_subdirs_bottomup rootdir es"

definition os_walk :: "'c node \<Rightarrow> path \<Rightarrow> (path \<times> string list \<times> string list) list" where
  "os_walk fs p = (case lookup fs p of None \<Rightarrow> [] | Some n \<Rightarrow> walk_node p n)"

definition os_walk_bottomup :: "'c node \<Rightarrow> path \<Rightarrow> (path \<times> string list \<times> string list) list" where
  "os_walk_bottomup fs p = (case lookup fs p of None \<Rightarrow> [] | Some n \<Rightarrow> walk_node_bottomup p n)"

text \<open>
  The nested loop \<^verbatim>\<open>for root, _, files in os.walk(d): for filename in files:\<close> visits these
  pairs, in this order.
\<close>

definition walk_files :: "'c node \<Rightarrow> path \<Rightarrow> (path \<times> string) list" where
  "walk_files fs d = concat (map (\<lambda>(rootdir, dirs, files). map (\<lambda>f. (rootdir, f)) files) (os_walk fs d))"

subsection \<open>What a path refers to, and what a removal changes\<close>

datatype 'c stat = Absent | IsFile bool bool 'c | IsDir bool

fun node_stat :: "'c node option \<Rightarrow> 'c stat" where
  "node_stat None = Absent"
| "node_stat (Some (File r w c)) = IsFile r w c"
| "node_stat (Some (Dir w es)) = IsDir w"

definition stat :: "'c node \<Rightarrow> path \<Rightarrow> 'c stat" where
  "stat fs p = node_stat (lookup fs p)"

lemma map_of_map_entry:
  "map_of (map (\<lambda>(n, m). if n = x then (n, F m) else (n, m)) es) y =
     (if y = x then map_option F (map_of es y) else map_of es y)"
  by (induction es) auto

lemma map_of_filter_name:
  "map_of (filter (\<lambda>(n, m). n \<noteq> x) es) y = (if y = x then None else map_of es y)"
  by (induction es) auto

lemma lookup_append:
  "lookup fs (d @ q) = (case lookup fs d of None \<Rightarrow> None | Some n \<Rightarrow> lookup n q)"
proof (induction d arbitrary: fs)
  case Nil
  then show ?case by simp
next
  case (Cons x d)
  then show ?case by (cases fs) (auto split: option.splits)
qed

lemma lookup_modify_below:
  "lookup (modify_at d f fs) (d @ q) =
     (case lookup fs d of None \<Rightarrow> None | Some n \<Rightarrow> lookup (modify_at [] f n) q)"
proof (induction d arbitrary: fs)
  case Nil
  then show ?case by simp
next
  case (Cons x d)
  then show ?case by (cases fs) (auto simp: map_of_map_entry split: option.splits)
qed

lemma lookup_modify_above:
  "lookup (modify_at (q @ d) f fs) q = map_option (modify_at d f) (lookup fs q)"
proof (induction q arbitrary: fs)
  case Nil
  then show ?case by simp
next
  case (Cons x q)
  then show ?case by (cases fs) (auto simp: map_of_map_entry split: option.splits)
qed

lemma lookup_modify_diverge:
  "x \<noteq> y \<Longrightarrow> lookup (modify_at (c @ x # d) f fs) (c @ y # q) = lookup fs (c @ y # q)"
proof (induction c arbitrary: fs)
  case Nil
  then show ?case by (cases fs) (auto simp: map_of_map_entry split: option.splits)
next
  case (Cons z c)
  then show ?case by (cases fs) (auto simp: map_of_map_entry split: option.splits)
qed

lemma path_cases:
  "(\<exists>r. q = p @ r) \<or> (\<exists>r. r \<noteq> [] \<and> p = q @ r)
    \<or> (\<exists>c a b r1 r2. a \<noteq> b \<and> p = c @ a # r1 \<and> q = c @ b # r2)"
proof (induction p arbitrary: q)
  case Nil
  then show ?case by simp
next
  case (Cons x p)
  show ?case
  proof (cases q)
    case Nil
    then show ?thesis by simp
  next
    case (Cons y q')
    show ?thesis
    proof (cases "x = y")
      case False
      then have "x \<noteq> y \<and> x # p = [] @ x # p \<and> q = [] @ y # q'" using Cons by simp
      then show ?thesis by blast
    next
      case True
      from Cons.IH[of q'] show ?thesis
      proof (elim disjE exE conjE)
        fix r assume "q' = p @ r"
        then show ?thesis using True Cons by simp
      next
        fix r assume "r \<noteq> []" "p = q' @ r"
        then show ?thesis using True Cons by simp
      next
        fix c a b r1 r2 assume "a \<noteq> b" "p = c @ a # r1" "q' = c @ b # r2"
        then have "a \<noteq> b \<and> x # p = (x # c) @ a # r1 \<and> q = (x # c) @ b # r2"
          using True Cons by simp
        then show ?thesis by blast
      qed
    qed
  qed
qed

lemma node_stat_modify: "node_stat (map_option (modify_at d f) v) = node_stat v"
proof (cases v)
  case None
  then show ?thesis by simp
next
  case (Some n)
  then show ?thesis by (cases n; cases d) auto
qed

lemma stat_modify_above: "stat (modify_at (q @ d) f fs) q = stat fs q"
  by (simp add: stat_def lookup_modify_above node_stat_modify)

text \<open>Removing a leaf (a file, or an empty directory) changes the status of its own path
  only.\<close>

lemma stat_remove_leaf:
  assumes leaf: "\<And>x r. lookup fs (p @ x # r) = None" and ne: "p \<noteq> []"
  shows "stat (remove_entry fs p) q = (if q = p then Absent else stat fs q)"
proof -
  obtain d x where p: "p = d @ [x]" using ne by (metis append_butlast_last_id)
  let ?f = "filter (\<lambda>(n, m). n \<noteq> x)"
  have re: "remove_entry fs (d @ [x]) = modify_at d ?f fs" by (simp add: remove_entry_def)
  have below: "lookup (modify_at d ?f fs) (d @ y # r) =
      (if y = x then None else lookup fs (d @ y # r))" for y r
  proof -
    have la: "lookup fs (d @ y # r) = (case lookup fs d of None \<Rightarrow> None | Some n \<Rightarrow> lookup n (y # r))"
      by (rule lookup_append)
    show ?thesis
    proof (cases "lookup fs d")
      case None
      then show ?thesis by (simp add: lookup_modify_below la)
    next
      case (Some n)
      then show ?thesis
        by (cases n) (auto simp: lookup_modify_below la map_of_filter_name)
    qed
  qed
  have main: "stat (modify_at d ?f fs) q = (if q = d @ [x] then Absent else stat fs q)"
    using path_cases[of q "d @ [x]"]
  proof (elim disjE exE conjE)
    fix r assume q: "q = (d @ [x]) @ r"
    show ?thesis
    proof (cases r)
      case Nil
      then show ?thesis using q below[of x "[]"] by (simp add: stat_def)
    next
      case (Cons y r')
      then show ?thesis using q below[of x "y # r'"] leaf[of y r']
        by (simp add: stat_def p)
    qed
  next
    fix r assume r: "r \<noteq> []" "d @ [x] = q @ r"
    then obtain r' where r': "r = r' @ [x]" "d = q @ r'"
      by (metis append_assoc append_butlast_last_id butlast_snoc last_appendR last_snoc)
    have "q \<noteq> d @ [x]" using r by auto
    then show ?thesis using stat_modify_above[of q r' ?f fs] r' by simp
  next
    fix c a b r1 r2 assume h: "a \<noteq> b" "d @ [x] = c @ a # r1" "q = c @ b # r2"
    have neq: "q \<noteq> d @ [x]" using h by auto
    show ?thesis
    proof (cases r1 rule: rev_cases)
      case Nil
      then have "d = c" "x = a" using h by auto
      then show ?thesis using h neq below[of b r2] by (auto simp: stat_def)
    next
      case (snoc r1' z)
      then have "d = c @ a # r1'" using h by auto
      then show ?thesis using h neq lookup_modify_diverge[of a b c r1' ?f fs r2]
        by (auto simp: stat_def)
    qed
  qed
  show ?thesis unfolding p re by (rule main)
qed

subsection \<open>Well-formed trees\<close>

text \<open>
  A tree is well formed when no directory lists a name twice, which is what a file system
  guarantees. On such a tree the triples of \<^verbatim>\<open>os.walk\<close> are exactly the directories that
  \<open>lookup\<close> finds below the start.
\<close>

fun wf_node :: "'c node \<Rightarrow> bool" and wf_entries :: "(string \<times> 'c node) list \<Rightarrow> bool" where
  "wf_node (File r w c) = True"
| "wf_node (Dir w es) = (distinct (map fst es) \<and> wf_entries es)"
| "wf_entries [] = True"
| "wf_entries ((n, m) # es) = (wf_node m \<and> wf_entries es)"

lemma wf_entries_iff: "wf_entries es = (\<forall>(n, m) \<in> set es. wf_node m)"
  by (induction es) auto

lemma map_of_distinct_in:
  "distinct (map fst es) \<Longrightarrow> (n, m) \<in> set es \<Longrightarrow> map_of es n = Some m"
  by simp

lemma wf_lookup: "wf_node fs \<Longrightarrow> lookup fs p = Some n \<Longrightarrow> wf_node n"
proof (induction p arbitrary: fs)
  case Nil
  then show ?case by simp
next
  case (Cons x p)
  show ?case
  proof (cases fs)
    case (File r w c)
    then show ?thesis using Cons by simp
  next
    case (Dir w es)
    then obtain m where m: "map_of es x = Some m" "lookup m p = Some n"
      using Cons.prems by (auto split: option.splits)
    then have "(x, m) \<in> set es" by (simp add: map_of_SomeD)
    then have "wf_node m" using Cons.prems(1) Dir by (auto simp: wf_entries_iff)
    then show ?thesis using Cons.IH m by blast
  qed
qed




lemma walk_sets:
  "wf_node (node :: 'c node) \<Longrightarrow>
     set (walk_node r node) =
       {(r @ p, dirnames es, filenames es) | p w es. lookup node p = Some (Dir w es)}"
  "distinct (map fst (es0 :: (string \<times> 'c node) list)) \<Longrightarrow> wf_entries es0 \<Longrightarrow>
     set (walk_subdirs r es0) =
       {(r @ n # p, dirnames es, filenames es) | n p w es m.
          map_of es0 n = Some m \<and> lookup m p = Some (Dir w es)}"
proof (induction r node and r es0 rule: walk_node_walk_subdirs.induct)
  case (1 r rd w c)
  have "lookup (File rd w c) p \<noteq> Some (Dir w' es)" for p w' es
    by (cases p) auto
  then show ?case by simp
next
  case (2 r w es)
  then have ih: "set (walk_subdirs r es) =
       {(r @ n # p, dirnames es', filenames es') | n p w' es' m.
          map_of es n = Some m \<and> lookup m p = Some (Dir w' es')}" by simp
  show ?case
  proof (rule set_eqI, rule iffI)
    fix t assume "t \<in> set (walk_node r (Dir w es))"
    then consider "t = (r, dirnames es, filenames es)" | "t \<in> set (walk_subdirs r es)" by auto
    then show "t \<in> {(r @ p, dirnames es', filenames es') | p w' es'.
        lookup (Dir w es) p = Some (Dir w' es')}"
    proof cases
      case 1
      then have "t = (r @ [], dirnames es, filenames es) \<and> lookup (Dir w es) [] = Some (Dir w es)"
        by simp
      then show ?thesis by blast
    next
      case 2
      then obtain n p w' es' m where "t = (r @ n # p, dirnames es', filenames es')"
        "map_of es n = Some m" "lookup m p = Some (Dir w' es')" using ih by auto
      then have "t = (r @ (n # p), dirnames es', filenames es')
          \<and> lookup (Dir w es) (n # p) = Some (Dir w' es')" by simp
      then show ?thesis by blast
    qed
  next
    fix t assume "t \<in> {(r @ p, dirnames es', filenames es') | p w' es'.
        lookup (Dir w es) p = Some (Dir w' es')}"
    then obtain p w' es' where t: "t = (r @ p, dirnames es', filenames es')"
      and l: "lookup (Dir w es) p = Some (Dir w' es')" by auto
    show "t \<in> set (walk_node r (Dir w es))"
    proof (cases p)
      case Nil
      then show ?thesis using t l by simp
    next
      case (Cons n p')
      then obtain m where "map_of es n = Some m" "lookup m p' = Some (Dir w' es')"
        using l by (auto split: option.splits)
      then have "t \<in> set (walk_subdirs r es)" using ih t Cons by auto
      then show ?thesis by simp
    qed
  qed
next
  case (3 r)
  then show ?case by simp
next
  case (4 r n m es)
  then have wm: "wf_node m" and d: "distinct (map fst es)" and we: "wf_entries es"
    and nn: "n \<notin> fst ` set es" by auto
  have ih1: "set (walk_node (r @ [n]) m) =
       {((r @ [n]) @ p, dirnames es', filenames es') | p w' es'. lookup m p = Some (Dir w' es')}"
    using 4(1)[OF wm] .
  have ih2: "set (walk_subdirs r es) =
       {(r @ n' # p, dirnames es', filenames es') | n' p w' es' m'.
          map_of es n' = Some m' \<and> lookup m' p = Some (Dir w' es')}"
    using 4(2)[OF d we] .
  have none: "map_of es n = None" using nn by (simp add: map_of_eq_None_iff)
  show ?case
  proof (rule set_eqI, rule iffI)
    fix t assume "t \<in> set (walk_subdirs r ((n, m) # es))"
    then consider "t \<in> set (walk_node (r @ [n]) m)" | "t \<in> set (walk_subdirs r es)" by auto
    then show "t \<in> {(r @ n' # p, dirnames es', filenames es') | n' p w' es' m'.
          map_of ((n, m) # es) n' = Some m' \<and> lookup m' p = Some (Dir w' es')}"
    proof cases
      case 1
      then obtain p w' es' where "t = ((r @ [n]) @ p, dirnames es', filenames es')"
        "lookup m p = Some (Dir w' es')" using ih1 by auto
      then have "t = (r @ n # p, dirnames es', filenames es')
         \<and> map_of ((n, m) # es) n = Some m \<and> lookup m p = Some (Dir w' es')" by simp
      then show ?thesis by blast
    next
      case 2
      then obtain n' p w' es' m' where t: "t = (r @ n' # p, dirnames es', filenames es')"
        and mo: "map_of es n' = Some m'" and l: "lookup m' p = Some (Dir w' es')"
        using ih2 by auto
      have "n' \<noteq> n" using mo none by auto
      then have "map_of ((n, m) # es) n' = Some m'" using mo by simp
      then show ?thesis using t l by blast
    qed
  next
    fix t assume "t \<in> {(r @ n' # p, dirnames es', filenames es') | n' p w' es' m'.
          map_of ((n, m) # es) n' = Some m' \<and> lookup m' p = Some (Dir w' es')}"
    then obtain n' p w' es' m' where t: "t = (r @ n' # p, dirnames es', filenames es')"
      and mo: "map_of ((n, m) # es) n' = Some m'" and l: "lookup m' p = Some (Dir w' es')"
      by auto
    show "t \<in> set (walk_subdirs r ((n, m) # es))"
    proof (cases "n' = n")
      case True
      then have "m' = m" using mo by simp
      then have "t \<in> set (walk_node (r @ [n]) m)" using ih1 t l True by auto
      then show ?thesis by simp
    next
      case False
      then have "map_of es n' = Some m'" using mo by simp
      then have "t \<in> set (walk_subdirs r es)" using ih2 t l by auto
      then show ?thesis by simp
    qed
  qed
qed


lemma stat_IsFile: "(stat fs p = IsFile r w c) = (lookup fs p = Some (File r w c))"
  by (cases "lookup fs p" rule: node_stat.cases) (auto simp: stat_def)


lemma filenames_iff:
  "distinct (map fst es) \<Longrightarrow>
     (name \<in> set (filenames es)) = (\<exists>r w c. map_of es name = Some (File r w c))"
proof
  assume d: "distinct (map fst es)" and "name \<in> set (filenames es)"
  then obtain m where "(name, m) \<in> set es" "case m of Dir w sub \<Rightarrow> False | File r w c \<Rightarrow> True"
    by (auto simp: filenames_def)
  then show "\<exists>r w c. map_of es name = Some (File r w c)"
    using d by (cases m) auto
next
  assume "\<exists>r w c. map_of es name = Some (File r w c)"
  then obtain r w c where "(name, File r w c) \<in> set es" by (auto dest: map_of_SomeD)
  then show "name \<in> set (filenames es)" by (force simp: filenames_def)
qed














section \<open>\<^verbatim>\<open>FileManager.find_duplicates\<close>\<close>

text \<open>
  The log is kept as a list of events, one per call of \<^verbatim>\<open>log(...)\<close>, in order:
  \<^item> \<open>StartScan\<close>: \<^verbatim>\<open>"Starting duplicate scan..."\<close>
  \<^item> \<open>IndexingReference d\<close>: \<^verbatim>\<open>"Indexing files in reference directory: '{d}'..."\<close>
  \<^item> \<open>ErrorReading p e\<close>: \<^verbatim>\<open>"Error reading file '{p}': {e}"\<close>
  \<^item> \<open>IndexingComplete n\<close>: \<^verbatim>\<open>"Indexing complete. Found {n} unique files in reference."\<close>
  \<^item> \<open>CheckingDirectory d\<close>: \<^verbatim>\<open>"\nChecking for exact file duplicates in directory: '{d}'..."\<close>
  \<^item> \<open>DuplicateFound p n\<close>: \<^verbatim>\<open>"Duplicate found: '{p}' (matches '{n}')"\<close>
  \<^item> \<open>Deleted p\<close>: \<^verbatim>\<open>"Deleted: '{p}'"\<close>
  \<^item> \<open>ErrorChecking p e\<close>: \<^verbatim>\<open>"Error checking file '{p}': {e}"\<close>
  \<^item> \<open>StartCleanup\<close>: \<^verbatim>\<open>"Starting empty folder cleanup..."\<close>
  \<^item> \<open>FoundEmptyFolder p\<close>: \<^verbatim>\<open>"Found empty folder (will not delete in dry run): '{p}'"\<close>
  \<^item> \<open>DeletedEmptyFolder p\<close>: \<^verbatim>\<open>"Deleted empty folder: '{p}'"\<close>
  \<^item> \<open>ErrorAccessingFolder p e\<close>: \<^verbatim>\<open>"Error accessing or deleting folder '{p}': {e}"\<close>
\<close>

datatype event =
    StartScan
  | IndexingReference path
  | ErrorReading path pyerror
  | IndexingComplete nat
  | CheckingDirectory path
  | DuplicateFound path string
  | Deleted path
  | ErrorChecking path pyerror
  | StartCleanup
  | FoundEmptyFolder path
  | DeletedEmptyFolder path
  | ErrorAccessingFolder path pyerror

text \<open>
  \<^verbatim>\<open>reference_hashes\<close> is a Python dict from digest to file name: an association list with
  \<open>AList.update\<close> as \<^verbatim>\<open>d[k] = v\<close> and \<open>map_of\<close> as lookup. The digest
  (\<^verbatim>\<open>hashlib.md5(...).hexdigest()\<close>) is the parameter \<open>h\<close>.
\<close>

fun index_file ::
  "('c \<Rightarrow> 'd) \<Rightarrow> 'c node \<Rightarrow> ('d \<times> string) list \<times> event list \<Rightarrow> path \<times> string
    \<Rightarrow> ('d \<times> string) list \<times> event list" where
  "index_file h fs (reference_hashes, log_messages) (rootdir, filename) =
     (let filepath = rootdir @ [filename] in
      case open_read fs filepath of
        Inr c \<Rightarrow> (AList.update (h c) filename reference_hashes, log_messages)
      | Inl e \<Rightarrow> (reference_hashes, log_messages @ [ErrorReading filepath e]))"

definition index_reference ::
  "('c \<Rightarrow> 'd) \<Rightarrow> 'c node \<Rightarrow> path \<Rightarrow> event list \<Rightarrow> ('d \<times> string) list \<times> event list" where
  "index_reference h fs reference_dir log_messages =
     foldl (index_file h fs) ([], log_messages) (walk_files fs reference_dir)"

fun check_file ::
  "('c \<Rightarrow> 'd) \<Rightarrow> ('d \<times> string) list \<Rightarrow> bool \<Rightarrow> 'c node \<times> nat \<times> nat \<times> event list
    \<Rightarrow> path \<times> string \<Rightarrow> 'c node \<times> nat \<times> nat \<times> event list" where
  "check_file h reference_hashes dry_run (fs, found_count, deleted_count, log_messages) (rootdir, filename) =
     (let filepath_to_check = rootdir @ [filename] in
      case open_read fs filepath_to_check of
        Inl e \<Rightarrow> (fs, found_count, deleted_count, log_messages @ [ErrorChecking filepath_to_check e])
      | Inr c \<Rightarrow>
          (case map_of reference_hashes (h c) of
             None \<Rightarrow> (fs, found_count, deleted_count, log_messages)
           | Some matched \<Rightarrow>
               (let found_count' = found_count + 1;
                    log_messages' = log_messages @ [DuplicateFound filepath_to_check matched]
                in if \<not> dry_run then
                     (case os_remove fs filepath_to_check of
                        Inl e \<Rightarrow>
                          (fs, found_count', deleted_count,
                           log_messages' @ [ErrorChecking filepath_to_check e])
                      | Inr fs' \<Rightarrow>
                          (fs', found_count', deleted_count + 1,
                           log_messages' @ [Deleted filepath_to_check]))
                   else (fs, found_count', deleted_count, log_messages'))))"

definition find_duplicates ::
  "('c \<Rightarrow> 'd) \<Rightarrow> 'c node \<Rightarrow> path \<Rightarrow> path \<Rightarrow> bool \<Rightarrow> 'c node \<times> nat \<times> nat \<times> event list" where
  "find_duplicates h fs reference_dir check_dir dry_run =
     (let log0 = [StartScan, IndexingReference reference_dir];
          (reference_hashes, log1) = index_reference h fs reference_dir log0;
          log2 = log1 @ [IndexingComplete (length reference_hashes), CheckingDirectory check_dir]
      in foldl (check_file h reference_hashes dry_run) (fs, 0, 0, log2) (walk_files fs check_dir))"

text \<open>The result is the file system left behind and the returned tuple
  \<^verbatim>\<open>(found_count, deleted_count, log_messages)\<close>.\<close>

section \<open>The duplicate index\<close>

text \<open>
  The (digest, file name) pairs of the readable reference files, in the order the walk
  visits them, and the lines the indexing phase logs for the unreadable ones.
\<close>

definition reference_digests :: "('c \<Rightarrow> 'd) \<Rightarrow> 'c node \<Rightarrow> path \<Rightarrow> ('d \<times> string) list" where
  "reference_digests h fs reference_dir =
     List.map_filter
       (\<lambda>(rootdir, filename). case open_read fs (rootdir @ [filename]) of
                              Inr c \<Rightarrow> Some (h c, filename) | Inl e \<Rightarrow> None)
       (walk_files fs reference_dir)"

definition read_errors :: "'c node \<Rightarrow> path \<Rightarrow> event list" where
  "read_errors fs reference_dir =
     List.map_filter
       (\<lambda>(rootdir, filename). case open_read fs (rootdir @ [filename]) of
                              Inr c \<Rightarrow> None | Inl e \<Rightarrow> Some (ErrorReading (rootdir @ [filename]) e))
       (walk_files fs reference_dir)"

text \<open>A reference directory with two files of equal content, and a check directory with a
  third.\<close>

definition dup_fs :: "string node" where
  "dup_fs = Dir True
     [(''ref'', Dir True [(''a.txt'', File True True ''X''), (''b.txt'', File True True ''X'')]),
      (''chk'', Dir True [(''c.txt'', File True True ''X'')])]"

lemma foldl_index_file:
  "snd (foldl (index_file h fs) (al, log_messages) files) =
      log_messages @ List.map_filter
       (\<lambda>(rootdir, filename). case open_read fs (rootdir @ [filename]) of
                              Inr c \<Rightarrow> None | Inl e \<Rightarrow> Some (ErrorReading (rootdir @ [filename]) e)) files
   \<and> map_of (fst (foldl (index_file h fs) (al, log_messages) files)) =
     map_of (rev (List.map_filter
       (\<lambda>(rootdir, filename). case open_read fs (rootdir @ [filename]) of
                              Inr c \<Rightarrow> Some (h c, filename) | Inl e \<Rightarrow> None) files) @ al)"
proof (induction files arbitrary: al log_messages)
  case Nil
  then show ?case by simp
next
  case (Cons a files)
  obtain rootdir filename where a: "a = (rootdir, filename)" by (cases a)
  show ?case
  proof (cases "open_read fs (rootdir @ [filename])")
    case (Inl e)
    then show ?thesis using Cons.IH[of al "log_messages @ [ErrorReading (rootdir @ [filename]) e]"]
      by (simp add: a)
  next
    case (Inr c)
    then show ?thesis using Cons.IH[of "AList.update (h c) filename al" log_messages]
      by (simp add: a update_conv' map_add_def fun_eq_iff split: option.splits)
  qed
qed

lemma index_reference_map:
  "map_of (fst (index_reference h fs reference_dir log_messages)) =
     map_of (rev (reference_digests h fs reference_dir))"
  using foldl_index_file[of h fs "[]" log_messages "walk_files fs reference_dir"]
  by (simp add: index_reference_def reference_digests_def)

lemma index_reference_log:
  "snd (index_reference h fs reference_dir log_messages) = log_messages @ read_errors fs reference_dir"
  using foldl_index_file[of h fs "[]" log_messages "walk_files fs reference_dir"]
  by (simp add: index_reference_def read_errors_def)

lemma dup_fs_walk_ref:
  "walk_files dup_fs [''ref''] = [([''ref''], ''a.txt''), ([''ref''], ''b.txt'')]"
  by (simp add: walk_files_def os_walk_def dup_fs_def filenames_def dirnames_def)

lemma dup_fs_walk_chk: "walk_files dup_fs [''chk''] = [([''chk''], ''c.txt'')]"
  by (simp add: walk_files_def os_walk_def dup_fs_def filenames_def dirnames_def)

lemma dup_fs_digests:
  "reference_digests (\<lambda>c. c) dup_fs [''ref''] = [(''X'', ''a.txt''), (''X'', ''b.txt'')]"
  unfolding reference_digests_def dup_fs_walk_ref by (simp add: open_read_def dup_fs_def)

lemma dup_fs_index:
  "index_reference (\<lambda>c. c) dup_fs [''ref''] l = ([(''X'', ''b.txt'')], l)"
  unfolding index_reference_def dup_fs_walk_ref by (simp add: open_read_def dup_fs_def)

lemma dup_fs_dry_run:
  "find_duplicates (\<lambda>c. c) dup_fs [''ref''] [''chk''] True =
     (dup_fs, 1, 0,
      [StartScan, IndexingReference [''ref''], IndexingComplete 1, CheckingDirectory [''chk''],
       DuplicateFound [''chk'', ''c.txt''] ''b.txt''])"
  unfolding find_duplicates_def dup_fs_index dup_fs_walk_chk Let_def
  by (simp add: open_read_def dup_fs_def)

text \<open>
  Claim C2, as amended. \<^verbatim>\<open>reference_hashes[file_hash] = filename\<close> overwrites: the index
  maps a digest to the name of the \<^emph>\<open>last\<close> readable reference file, in walk order, that
  has it (\<open>map_of\<close> of the reversed list finds the last pair of a key), for every tree and
  every listing order. Indexing logs one line per unreadable file and nothing else, so a
  collision is not reported.
\<close>

theorem index_last_seen_wins:
  "map_of (fst (index_reference h fs reference_dir log_messages)) =
     map_of (rev (reference_digests h fs reference_dir))
   \<and> snd (index_reference h fs reference_dir log_messages) = log_messages @ read_errors fs reference_dir"
  by (simp add: index_reference_map index_reference_log)

text \<open>
  Claim C2, as stated, fails: \<^verbatim>\<open>a.txt\<close> is listed first in \<^verbatim>\<open>ref\<close>, \<^verbatim>\<open>b.txt\<close> has the
  same content, and the index (and the line logged for the match in \<^verbatim>\<open>chk\<close>) names
  \<^verbatim>\<open>b.txt\<close>.
\<close>

theorem index_first_seen_counterexample:
  "walk_files dup_fs [''ref''] = [([''ref''], ''a.txt''), ([''ref''], ''b.txt'')]
   \<and> reference_digests (\<lambda>c. c) dup_fs [''ref''] = [(''X'', ''a.txt''), (''X'', ''b.txt'')]
   \<and> map_of (fst (index_reference (\<lambda>c. c) dup_fs [''ref''] [])) ''X'' = Some ''b.txt''
   \<and> map_of (fst (index_reference (\<lambda>c. c) dup_fs [''ref''] [])) ''X'' \<noteq> Some ''a.txt''
   \<and> snd (snd (snd (find_duplicates (\<lambda>c. c) dup_fs [''ref''] [''chk''] True))) =
       [StartScan, IndexingReference [''ref''], IndexingComplete 1, CheckingDirectory [''chk''],
        DuplicateFound [''chk'', ''c.txt''] ''b.txt'']"
  by (simp add: dup_fs_walk_ref dup_fs_digests dup_fs_index dup_fs_dry_run)

section \<open>Which files the duplicate scan reports and removes\<close>

definition fd_fs :: "'c node \<times> nat \<times> nat \<times> event list \<Rightarrow> 'c node" where
  "fd_fs st = fst st"
definition fd_found :: "'c node \<times> nat \<times> nat \<times> event list \<Rightarrow> nat" where
  "fd_found st = fst (snd st)"
definition fd_deleted :: "'c node \<times> nat \<times> nat \<times> event list \<Rightarrow> nat" where
  "fd_deleted st = fst (snd (snd st))"
definition fd_log :: "'c node \<times> nat \<times> nat \<times> event list \<Rightarrow> event list" where
  "fd_log st = snd (snd (snd st))"

definition full_path :: "path \<times> string \<Rightarrow> path" where
  "full_path rf = fst rf @ [snd rf]"

definition is_match :: "('c \<Rightarrow> 'd) \<Rightarrow> ('d \<times> string) list \<Rightarrow> 'c node \<Rightarrow> path \<Rightarrow> bool" where
  "is_match h hashes fs q =
     (case open_read fs q of Inl e \<Rightarrow> False | Inr c \<Rightarrow> map_of hashes (h c) \<noteq> None)"

definition dup_inv ::
  "('c \<Rightarrow> 'd) \<Rightarrow> ('d \<times> string) list \<Rightarrow> 'c node \<Rightarrow> path set
     \<Rightarrow> 'c node \<times> nat \<times> nat \<times> event list \<Rightarrow> bool" where
  "dup_inv h hashes fs0 V st =
     ((\<forall>q. stat (fd_fs st) q = stat fs0 q
            \<or> (stat (fd_fs st) q = Absent \<and> q \<in> V \<and> is_match h hashes fs0 q))
      \<and> (\<forall>q. (\<exists>n. DuplicateFound q n \<in> set (fd_log st)) = (q \<in> V \<and> is_match h hashes fs0 q))
      \<and> fd_deleted st \<le> fd_found st)"

lemma open_read_stat:
  "open_read fs p =
     (case stat fs p of Absent \<Rightarrow> Inl FileNotFoundError | IsDir w \<Rightarrow> Inl IsADirectoryError
      | IsFile r w c \<Rightarrow> if r then Inr c else Inl PermissionError)"
  by (simp add: open_read_def stat_def split: option.splits node.splits)

lemma os_remove_Inr:
  assumes "os_remove fs p = Inr fs'" and "p \<noteq> []"
  shows "stat fs' q = (if q = p then Absent else stat fs q)"
proof -
  from assms obtain r w c where f: "lookup fs p = Some (File r w c)" and fs': "fs' = remove_entry fs p"
    by (auto simp: os_remove_def split: option.splits node.splits if_splits)
  have "lookup fs (p @ x # t) = None" for x t by (simp add: lookup_append f)
  then show ?thesis using stat_remove_leaf[of fs p q] assms(2) fs' by simp
qed

lemma dup_invI:
  assumes B: "\<forall>q. stat fs q = stat fs0 q
                \<or> (stat fs q = Absent \<and> q \<in> V \<and> is_match h hashes fs0 q)"
    and A: "\<forall>q. (\<exists>n. DuplicateFound q n \<in> set log_messages) = (q \<in> V \<and> is_match h hashes fs0 q)"
    and fs': "\<forall>q. stat fs' q = stat fs q
                \<or> (q = p \<and> stat fs' q = Absent \<and> is_match h hashes fs0 p)"
    and log_messages': "\<forall>q. (\<exists>n. DuplicateFound q n \<in> set log_messages') =
                 ((\<exists>n. DuplicateFound q n \<in> set log_messages) \<or> (q = p \<and> is_match h hashes fs0 p))"
    and le: "deleted' \<le> found'"
  shows "dup_inv h hashes fs0 (insert p V) (fs', found', deleted', log_messages')"
proof -
  have 1: "stat fs' q = stat fs0 q
            \<or> (stat fs' q = Absent \<and> q \<in> insert p V \<and> is_match h hashes fs0 q)" for q
    using B[rule_format, of q] fs'[rule_format, of q] by auto
  have 2: "(\<exists>n. DuplicateFound q n \<in> set log_messages') = (q \<in> insert p V \<and> is_match h hashes fs0 q)" for q
    using A[rule_format, of q] log_messages'[rule_format, of q] by auto
  show ?thesis
    unfolding dup_inv_def fd_fs_def fd_log_def fd_deleted_def fd_found_def
    using 1 2 le by simp
qed

lemma check_file_inv:
  assumes inv: "dup_inv h hashes fs0 V st"
  shows "dup_inv h hashes fs0 (insert (rootdir @ [filename]) V) (check_file h hashes dry_run st (rootdir, filename))"
proof -
  obtain fs found deleted log_messages where st: "st = (fs, found, deleted, log_messages)" by (cases st) auto
  let ?p = "rootdir @ [filename]"
  from inv have B: "\<forall>q. stat fs q = stat fs0 q \<or> (stat fs q = Absent \<and> q \<in> V \<and> is_match h hashes fs0 q)"
    and A: "\<forall>q. (\<exists>n. DuplicateFound q n \<in> set log_messages) = (q \<in> V \<and> is_match h hashes fs0 q)"
    and le: "deleted \<le> found"
    by (simp_all add: dup_inv_def st fd_fs_def fd_log_def fd_deleted_def fd_found_def)
  note I = dup_invI[OF B A, where p = ?p]
  show ?thesis
  proof (cases "open_read fs ?p")
    case (Inl e)
    have cf: "check_file h hashes dry_run st (rootdir, filename) =
        (fs, found, deleted, log_messages @ [ErrorChecking ?p e])"
      using Inl by (simp add: st)
    have "is_match h hashes fs0 ?p \<Longrightarrow> \<exists>n. DuplicateFound ?p n \<in> set log_messages"
      using B[rule_format, of ?p] A[rule_format, of ?p] Inl
      by (auto simp: is_match_def open_read_stat split: sum.splits)
    then show ?thesis unfolding cf using le by (intro I) auto
  next
    case (Inr c)
    then have same: "open_read fs0 ?p = Inr c"
      using B[rule_format, of ?p] by (auto simp: open_read_stat)
    show ?thesis
    proof (cases "map_of hashes (h c)")
      case None
      then have nm: "\<not> is_match h hashes fs0 ?p" using same by (simp add: is_match_def)
      have cf: "check_file h hashes dry_run st (rootdir, filename) = (fs, found, deleted, log_messages)"
        using Inr None by (simp add: st)
      show ?thesis unfolding cf using le nm by (intro I) auto
    next
      case (Some n)
      then have m: "is_match h hashes fs0 ?p" using same by (simp add: is_match_def)
      show ?thesis
      proof (cases "dry_run")
        case True
        have cf: "check_file h hashes dry_run st (rootdir, filename) =
            (fs, found + 1, deleted, log_messages @ [DuplicateFound ?p n])"
          using Inr Some True by (simp add: st Let_def)
        show ?thesis unfolding cf using le m by (intro I) auto
      next
        case False
        show ?thesis
        proof (cases "os_remove fs ?p")
          case (Inl e)
          have cf: "check_file h hashes dry_run st (rootdir, filename) =
              (fs, found + 1, deleted, log_messages @ [DuplicateFound ?p n, ErrorChecking ?p e])"
            using Inr Some False Inl by (simp add: st Let_def)
          show ?thesis unfolding cf using le m by (intro I) auto
        next
          case rm: (Inr fs')
          have cf: "check_file h hashes dry_run st (rootdir, filename) =
              (fs', found + 1, deleted + 1, log_messages @ [DuplicateFound ?p n, Deleted ?p])"
            using Inr Some False rm by (simp add: st Let_def)
          have s': "\<And>q. stat fs' q = (if q = ?p then Absent else stat fs q)"
            using os_remove_Inr[OF rm] by simp
          show ?thesis unfolding cf using le m s' by (intro I) auto
        qed
      qed
    qed
  qed
qed

lemma foldl_check_file_inv:
  "dup_inv h hashes fs0 V st \<Longrightarrow>
   dup_inv h hashes fs0 (V \<union> full_path ` set files) (foldl (check_file h hashes dry_run) st files)"
proof (induction files arbitrary: V st)
  case Nil
  then show ?case by simp
next
  case (Cons a files)
  obtain rootdir filename where a: "a = (rootdir, filename)" by (cases a)
  from check_file_inv[OF Cons.prems, where dry_run=dry_run and rootdir=rootdir and filename=filename]
  have "dup_inv h hashes fs0 (insert (rootdir @ [filename]) V \<union> full_path ` set files)
     (foldl (check_file h hashes dry_run) (check_file h hashes dry_run st (rootdir, filename)) files)"
    by (rule Cons.IH)
  then show ?case by (simp add: a full_path_def)
qed

lemma set_map_filter: "set (List.map_filter f xs) = {y. \<exists>x \<in> set xs. f x = Some y}"
  by (induction xs) (auto split: option.splits)

lemma read_errors_no_duplicate: "DuplicateFound q n \<notin> set (read_errors fs d)"
  by (auto simp: read_errors_def set_map_filter split: sum.splits)

lemma find_duplicates_foldl:
  "find_duplicates h fs reference_dir check_dir dry_run =
     foldl (check_file h (fst (index_reference h fs reference_dir [StartScan, IndexingReference reference_dir])) dry_run)
       (fs, 0, 0,
        [StartScan, IndexingReference reference_dir] @ read_errors fs reference_dir @
        [IndexingComplete (length (fst (index_reference h fs reference_dir [StartScan, IndexingReference reference_dir]))),
         CheckingDirectory check_dir])
       (walk_files fs check_dir)"
  by (simp add: find_duplicates_def Let_def split_beta index_reference_log)

lemma find_duplicates_inv:
  "dup_inv h (fst (index_reference h fs reference_dir [StartScan, IndexingReference reference_dir])) fs
     (full_path ` set (walk_files fs check_dir))
     (find_duplicates h fs reference_dir check_dir dry_run)"
proof -
  let ?hashes = "fst (index_reference h fs reference_dir [StartScan, IndexingReference reference_dir])"
  let ?log_messages = "[StartScan, IndexingReference reference_dir] @ read_errors fs reference_dir @
        [IndexingComplete (length ?hashes), CheckingDirectory check_dir]"
  have "dup_inv h ?hashes fs {} (fs, 0, 0, ?log_messages)"
    by (simp add: dup_inv_def fd_fs_def fd_log_def fd_deleted_def fd_found_def
        read_errors_no_duplicate)
  from foldl_check_file_inv[OF this, of "walk_files fs check_dir" dry_run]
  show ?thesis by (simp add: find_duplicates_foldl)
qed

lemma reference_digests_iff:
  "(k \<in> fst ` set (reference_digests h fs d)) =
     (\<exists>rf \<in> set (walk_files fs d). \<exists>c. open_read fs (full_path rf) = Inr c \<and> h c = k)"
proof
  assume "k \<in> fst ` set (reference_digests h fs d)"
  then obtain v rf where rf: "rf \<in> set (walk_files fs d)"
    and f: "(case rf of (rootdir, filename) \<Rightarrow> case open_read fs (rootdir @ [filename]) of
              Inr c \<Rightarrow> Some (h c, filename) | Inl e \<Rightarrow> None) = Some (k, v)"
    by (auto simp: reference_digests_def set_map_filter)
  from f have "\<exists>c. open_read fs (full_path rf) = Inr c \<and> h c = k"
    by (cases rf) (auto simp: full_path_def split: sum.splits)
  with rf show "\<exists>rf \<in> set (walk_files fs d). \<exists>c. open_read fs (full_path rf) = Inr c \<and> h c = k"
    by blast
next
  assume "\<exists>rf \<in> set (walk_files fs d). \<exists>c. open_read fs (full_path rf) = Inr c \<and> h c = k"
  then obtain rf c where rf: "rf \<in> set (walk_files fs d)"
    and c: "open_read fs (full_path rf) = Inr c" "h c = k" by blast
  have "(case rf of (rootdir, filename) \<Rightarrow> case open_read fs (rootdir @ [filename]) of
              Inr c \<Rightarrow> Some (h c, filename) | Inl e \<Rightarrow> None) = Some (k, snd rf)"
    using c by (cases rf) (auto simp: full_path_def)
  with rf have "(k, snd rf) \<in> set (reference_digests h fs d)"
    by (auto simp: reference_digests_def set_map_filter)
  then show "k \<in> fst ` set (reference_digests h fs d)" by force
qed

lemma is_match_index:
  "is_match h (fst (index_reference h fs d log_messages)) fs q =
     (\<exists>c. open_read fs q = Inr c \<and>
        (\<exists>rf \<in> set (walk_files fs d). \<exists>c'. open_read fs (full_path rf) = Inr c' \<and> h c' = h c))"
proof -
  have "(map_of (fst (index_reference h fs d log_messages)) k \<noteq> None) =
      (k \<in> fst ` set (reference_digests h fs d))" for k
    by (simp add: index_reference_map map_of_eq_None_iff)
  then show ?thesis
    by (auto simp: is_match_def reference_digests_iff split: sum.splits)
qed

text \<open>
  The files of a tree \<open>d\<close> are the paths strictly below \<open>d\<close> that refer to a file; on a
  well-formed tree they are exactly the files the nested loop over \<^verbatim>\<open>os.walk(d)\<close> visits.
\<close>

definition below :: "path \<Rightarrow> path \<Rightarrow> bool" where
  "below d q = (length d < length q \<and> take (length d) q = d)"

lemma below_iff: "below d q = (\<exists>p name. q = (d @ p) @ [name])"
proof
  assume b: "below d q"
  then have q: "q = d @ drop (length d) q" and ne: "drop (length d) q \<noteq> []"
    by (auto simp: below_def) (metis append_take_drop_id)
  from ne obtain p name where "drop (length d) q = p @ [name]"
    by (metis rev_exhaust)
  with q show "\<exists>p name. q = (d @ p) @ [name]" by (metis append_assoc)
next
  assume "\<exists>p name. q = (d @ p) @ [name]"
  then show "below d q" by (auto simp: below_def)
qed

lemma walk_files_mem:
  "((rootdir, f) \<in> set (walk_files fs d)) =
     (\<exists>dirs files. (rootdir, dirs, files) \<in> set (os_walk fs d) \<and> f \<in> set files)"
  unfolding walk_files_def by force

lemma walk_files_set:
  assumes wf: "wf_node fs"
  shows "(q \<in> full_path ` set (walk_files fs d)) = (below d q \<and> (\<exists>r w c. stat fs q = IsFile r w c))"
proof (cases "lookup fs d")
  case None
  have "lookup fs ((d @ p) @ [name]) = None" for p name
    unfolding append_assoc by (simp add: lookup_append None)
  then have "\<not> (below d q \<and> (\<exists>r w c. stat fs q = IsFile r w c))"
    unfolding below_iff stat_IsFile by auto
  moreover have "walk_files fs d = []" by (simp add: walk_files_def os_walk_def None)
  ultimately show ?thesis by simp
next
  case (Some n)
  have wn: "wf_node n" using wf Some wf_lookup by blast
  have la: "lookup fs (d @ p) = lookup n p" for p by (simp add: lookup_append Some)
  have walk: "set (os_walk fs d) =
       {(d @ p, dirnames es, filenames es) | p w es. lookup n p = Some (Dir w es)}"
    using walk_sets(1)[OF wn, of d] by (simp add: os_walk_def Some)
  show ?thesis
  proof
    assume "q \<in> full_path ` set (walk_files fs d)"
    then obtain rootdir name where q: "q = rootdir @ [name]"
      and m: "(rootdir, name) \<in> set (walk_files fs d)"
      by (auto simp: full_path_def)
    from m obtain dirs files where t: "(rootdir, dirs, files) \<in> set (os_walk fs d)"
      and nm: "name \<in> set files" unfolding walk_files_mem by blast
    from t obtain p w es where r: "rootdir = d @ p" "files = filenames es"
      and l: "lookup n p = Some (Dir w es)" unfolding walk by blast
    have "wf_node (Dir w es)" using wn l wf_lookup by blast
    then have "distinct (map fst es)" by simp
    then obtain r' w' c where f: "map_of es name = Some (File r' w' c)"
      using nm r(2) filenames_iff by blast
    have "lookup fs ((d @ p) @ [name]) = Some (File r' w' c)"
      unfolding lookup_append[of fs "d @ p" "[name]"] la[of p] l using f by simp
    then have "stat fs q = IsFile r' w' c" unfolding stat_IsFile q r(1) .
    moreover have "below d q" unfolding below_iff q r(1) by blast
    ultimately show "below d q \<and> (\<exists>r w c. stat fs q = IsFile r w c)" by blast
  next
    assume "below d q \<and> (\<exists>r w c. stat fs q = IsFile r w c)"
    then obtain p name r' w' c where q: "q = (d @ p) @ [name]"
      and f: "stat fs q = IsFile r' w' c"
      unfolding below_iff by blast
    have lf: "lookup fs ((d @ p) @ [name]) = Some (File r' w' c)" using f unfolding stat_IsFile q .
    then obtain m where lm: "lookup n p = Some m" and l1: "lookup m [name] = Some (File r' w' c)"
      unfolding lookup_append[of fs "d @ p" "[name]"] la[of p] by (auto split: option.splits)
    from l1 obtain w es where m: "m = Dir w es" and mo: "map_of es name = Some (File r' w' c)"
      by (cases m) (auto split: option.splits)
    have "wf_node (Dir w es)" using wn lm m wf_lookup by blast
    then have dist: "distinct (map fst es)" by simp
    have 1: "name \<in> set (filenames es)" using dist filenames_iff mo by blast
    have 2: "(d @ p, dirnames es, filenames es) \<in> set (os_walk fs d)"
      unfolding walk using lm m by blast
    have "(d @ p, name) \<in> set (walk_files fs d)" unfolding walk_files_mem using 1 2 by blast
    then show "q \<in> full_path ` set (walk_files fs d)"
      unfolding q by (force simp: full_path_def)
  qed
qed

lemma readable_file_iff:
  "(\<exists>c. open_read fs q = Inr c \<and> P c) = (\<exists>w c. stat fs q = IsFile True w c \<and> P c)"
  by (cases "stat fs q") (auto simp: open_read_stat)

lemma reference_has_digest:
  assumes wf: "wf_node fs"
  shows "(\<exists>rf \<in> set (walk_files fs d). \<exists>c'. open_read fs (full_path rf) = Inr c' \<and> h c' = k) =
         (\<exists>q' w' c'. below d q' \<and> stat fs q' = IsFile True w' c' \<and> h c' = k)"
proof -
  have "(\<exists>rf \<in> set (walk_files fs d). \<exists>c'. open_read fs (full_path rf) = Inr c' \<and> h c' = k) =
        (\<exists>q'. q' \<in> full_path ` set (walk_files fs d) \<and> (\<exists>c'. open_read fs q' = Inr c' \<and> h c' = k))"
    by blast
  also have "\<dots> = (\<exists>q'. (below d q' \<and> (\<exists>r w c. stat fs q' = IsFile r w c))
                        \<and> (\<exists>w' c'. stat fs q' = IsFile True w' c' \<and> h c' = k))"
    unfolding walk_files_set[OF wf] readable_file_iff[of fs _ "\<lambda>c'. h c' = k"] ..
  also have "\<dots> = (\<exists>q' w' c'. below d q' \<and> stat fs q' = IsFile True w' c' \<and> h c' = k)"
    by blast
  finally show ?thesis .
qed

lemma duplicate_reported_walk:
  "(\<exists>n. DuplicateFound q n \<in> set (fd_log (find_duplicates h fs reference_dir check_dir dry_run))) =
     (q \<in> full_path ` set (walk_files fs check_dir) \<and>
      (\<exists>c. open_read fs q = Inr c \<and>
        (\<exists>rf \<in> set (walk_files fs reference_dir).
            \<exists>c'. open_read fs (full_path rf) = Inr c' \<and> h c' = h c)))"
  using find_duplicates_inv[of h fs reference_dir check_dir dry_run]
  unfolding dup_inv_def is_match_index by blast

text \<open>A duplicate under another name in a subdirectory, and a file with other content.\<close>

definition renamed_fs :: "string node" where
  "renamed_fs = Dir True
     [(''ref'', Dir True [(''keep.png'', File True True ''X'')]),
      (''chk'', Dir True [(''sub'', Dir True [(''copy.jpg'', File True True ''X'')]),
                          (''other.png'', File True True ''Y'')])]"

lemma renamed_fs_wf: "wf_node renamed_fs"
  by (simp add: renamed_fs_def)

lemma renamed_fs_stat:
  "stat renamed_fs [''ref'', ''keep.png''] = IsFile True True ''X''"
  "stat renamed_fs [''chk'', ''sub'', ''copy.jpg''] = IsFile True True ''X''"
  "stat renamed_fs [''chk'', ''other.png''] = IsFile True True ''Y''"
  by (simp_all add: stat_def renamed_fs_def)

lemma renamed_fs_reference:
  assumes "below [''ref''] q" and "stat renamed_fs q = IsFile r w c"
  shows "c = ''X''"
proof -
  from assms(1) obtain p name where q: "q = ([''ref''] @ p) @ [name]" unfolding below_iff by blast
  have l: "lookup (Dir True [(''keep.png'', File True True ''X'')]) (p @ [name]) = Some (File r w c)"
    using assms(2) unfolding stat_IsFile q by (simp add: renamed_fs_def)
  show ?thesis
  proof (cases p)
    case Nil
    then show ?thesis using l by (simp split: if_splits)
  next
    case (Cons x p')
    then show ?thesis using l by (cases p') (simp_all split: if_splits)
  qed
qed

text \<open>
  Claim C5. On a well-formed tree, a path is reported as a duplicate (a
  \<^verbatim>\<open>"Duplicate found: ..."\<close> line is logged for it) if and only if it is a readable file
  strictly below the check directory and the digest of its content equals the digest of the
  content of some readable file strictly below the reference directory. A file that cannot
  be read has no digest: the source logs the error and goes on. File names take no part in
  the condition, in either mode. A path that is not reported keeps its status: it is not
  deleted.
\<close>

theorem duplicate_reported_iff:
  assumes wf: "wf_node fs"
  shows "((\<exists>n. DuplicateFound q n \<in> set (fd_log (find_duplicates h fs reference_dir check_dir dry_run))) =
           (below check_dir q \<and>
            (\<exists>w c. stat fs q = IsFile True w c \<and>
              (\<exists>q' w' c'. below reference_dir q' \<and> stat fs q' = IsFile True w' c' \<and> h c' = h c))))
       \<and> ((\<exists>n. DuplicateFound q n \<in> set (fd_log (find_duplicates h fs reference_dir check_dir dry_run)))
            \<or> stat (fd_fs (find_duplicates h fs reference_dir check_dir dry_run)) q = stat fs q)"
proof
  have "(\<exists>n. DuplicateFound q n \<in> set (fd_log (find_duplicates h fs reference_dir check_dir dry_run))) =
     ((below check_dir q \<and> (\<exists>r w c. stat fs q = IsFile r w c)) \<and>
      (\<exists>w c. stat fs q = IsFile True w c \<and>
        (\<exists>q' w' c'. below reference_dir q' \<and> stat fs q' = IsFile True w' c' \<and> h c' = h c)))"
    unfolding duplicate_reported_walk walk_files_set[OF wf] reference_has_digest[OF wf]
      readable_file_iff[of fs q] ..
  then show "(\<exists>n. DuplicateFound q n \<in> set (fd_log (find_duplicates h fs reference_dir check_dir dry_run))) =
           (below check_dir q \<and>
            (\<exists>w c. stat fs q = IsFile True w c \<and>
              (\<exists>q' w' c'. below reference_dir q' \<and> stat fs q' = IsFile True w' c' \<and> h c' = h c)))"
    by blast
  show "(\<exists>n. DuplicateFound q n \<in> set (fd_log (find_duplicates h fs reference_dir check_dir dry_run)))
            \<or> stat (fd_fs (find_duplicates h fs reference_dir check_dir dry_run)) q = stat fs q"
    using find_duplicates_inv[of h fs reference_dir check_dir dry_run]
    unfolding dup_inv_def by blast
qed

theorem duplicate_reported_iff_witness:
  "wf_node renamed_fs
   \<and> (\<exists>n. DuplicateFound [''chk'', ''sub'', ''copy.jpg''] n
            \<in> set (fd_log (find_duplicates (\<lambda>c. c) renamed_fs [''ref''] [''chk''] False)))
   \<and> \<not> (\<exists>n. DuplicateFound [''chk'', ''other.png''] n
            \<in> set (fd_log (find_duplicates (\<lambda>c. c) renamed_fs [''ref''] [''chk''] False)))
   \<and> stat (fd_fs (find_duplicates (\<lambda>c. c) renamed_fs [''ref''] [''chk''] False)) [''chk'', ''other.png'']
        = IsFile True True ''Y''"
proof -
  have 1: "below [''chk''] [''chk'', ''sub'', ''copy.jpg''] \<and>
      (\<exists>w c. stat renamed_fs [''chk'', ''sub'', ''copy.jpg''] = IsFile True w c \<and>
        (\<exists>q' w' c'. below [''ref''] q' \<and> stat renamed_fs q' = IsFile True w' c' \<and> c' = c))"
    using renamed_fs_stat(1) by (auto simp: renamed_fs_stat below_def intro!: exI[of _ "[''ref'', ''keep.png'']"])
  have 2: "\<not> (below [''chk''] [''chk'', ''other.png''] \<and>
      (\<exists>w c. stat renamed_fs [''chk'', ''other.png''] = IsFile True w c \<and>
        (\<exists>q' w' c'. below [''ref''] q' \<and> stat renamed_fs q' = IsFile True w' c' \<and> c' = c)))"
    using renamed_fs_reference by (auto simp: renamed_fs_stat)
  note copy = duplicate_reported_iff [OF renamed_fs_wf, of "[''chk'', ''sub'', ''copy.jpg'']"
      "\<lambda>c. c" "[''ref'']" "[''chk'']" False]
  note other = duplicate_reported_iff [OF renamed_fs_wf, of "[''chk'', ''other.png'']"
      "\<lambda>c. c" "[''ref'']" "[''chk'']" False]
  have r1: "\<exists>n. DuplicateFound [''chk'', ''sub'', ''copy.jpg''] n
            \<in> set (fd_log (find_duplicates (\<lambda>c. c) renamed_fs [''ref''] [''chk''] False))"
    using copy[THEN conjunct1] 1 by blast
  have r2: "\<not> (\<exists>n. DuplicateFound [''chk'', ''other.png''] n
            \<in> set (fd_log (find_duplicates (\<lambda>c. c) renamed_fs [''ref''] [''chk''] False)))"
    using other[THEN conjunct1] 2 by blast
  have r3: "stat (fd_fs (find_duplicates (\<lambda>c. c) renamed_fs [''ref''] [''chk''] False))
        [''chk'', ''other.png''] = stat renamed_fs [''chk'', ''other.png'']"
    using other[THEN conjunct2] r2 by blast
  show ?thesis using r1 r2 r3 renamed_fs_wf unfolding renamed_fs_stat by blast
qed

text \<open>
  Claim C10. In both modes \<^verbatim>\<open>deleted_count\<close> is at most \<^verbatim>\<open>found_count\<close>, and every path
  keeps its status (absent, a file with its attributes and content, or a directory) unless
  it is a file the walk of the check tree visits whose digest is that of a readable
  reference file; only such a file is removed.
\<close>

theorem deleted_only_if_indexed:
  "fd_deleted (find_duplicates h fs reference_dir check_dir dry_run)
     \<le> fd_found (find_duplicates h fs reference_dir check_dir dry_run)
   \<and> (stat (fd_fs (find_duplicates h fs reference_dir check_dir dry_run)) q = stat fs q
      \<or> (stat (fd_fs (find_duplicates h fs reference_dir check_dir dry_run)) q = Absent
         \<and> q \<in> full_path ` set (walk_files fs check_dir)
         \<and> (\<exists>c. open_read fs q = Inr c \<and>
              (\<exists>rf \<in> set (walk_files fs reference_dir).
                  \<exists>c'. open_read fs (full_path rf) = Inr c' \<and> h c' = h c))))"
  using find_duplicates_inv[of h fs reference_dir check_dir dry_run]
  unfolding dup_inv_def is_match_index by blast

fun is_duplicate_found :: "event \<Rightarrow> bool" where
  "is_duplicate_found (DuplicateFound p n) = True"
| "is_duplicate_found e = False"

section \<open>\<^verbatim>\<open>FileManager.delete_empty_folders\<close>\<close>

text \<open>
  The loop body for one triple of \<^verbatim>\<open>os.walk(target_dir, topdown=False)\<close>. The counter is
  incremented after the \<^verbatim>\<open>if dry_run: ... else: ...\<close>, in both modes; an exception of
  \<^verbatim>\<open>os.listdir\<close> or \<^verbatim>\<open>os.rmdir\<close> skips the increment.
\<close>

fun prune_step ::
  "bool \<Rightarrow> path \<Rightarrow> 'c node \<times> nat \<times> event list \<Rightarrow> path \<times> string list \<times> string list
     \<Rightarrow> 'c node \<times> nat \<times> event list" where
  "prune_step dry_run target_dir (fs, deleted_count, log_messages) (dirpath, dirs, files) =
     (if dirpath = target_dir then (fs, deleted_count, log_messages)
      else
        case os_listdir fs dirpath of
          Inl e \<Rightarrow> (fs, deleted_count, log_messages @ [ErrorAccessingFolder dirpath e])
        | Inr entries \<Rightarrow>
            if entries = [] then
              (if dry_run then (fs, deleted_count + 1, log_messages @ [FoundEmptyFolder dirpath])
               else
                 case os_rmdir fs dirpath of
                   Inl e \<Rightarrow> (fs, deleted_count, log_messages @ [ErrorAccessingFolder dirpath e])
                 | Inr fs' \<Rightarrow> (fs', deleted_count + 1, log_messages @ [DeletedEmptyFolder dirpath]))
            else (fs, deleted_count, log_messages))"

definition delete_empty_folders :: "'c node \<Rightarrow> path \<Rightarrow> bool \<Rightarrow> 'c node \<times> nat \<times> event list" where
  "delete_empty_folders fs target_dir dry_run =
     foldl (prune_step dry_run target_dir) (fs, 0, [StartCleanup]) (os_walk_bottomup fs target_dir)"

definition de_fs :: "'c node \<times> nat \<times> event list \<Rightarrow> 'c node" where
  "de_fs st = fst st"
definition de_count :: "'c node \<times> nat \<times> event list \<Rightarrow> nat" where
  "de_count st = fst (snd st)"
definition de_log :: "'c node \<times> nat \<times> event list \<Rightarrow> event list" where
  "de_log st = snd (snd st)"

text \<open>The tree \<^verbatim>\<open>A/B\<close>: the target directory holds \<open>a\<close>, which holds the empty \<open>b\<close>.\<close>

definition nested_fs :: "string \<Rightarrow> string \<Rightarrow> unit node" where
  "nested_fs a b = Dir True [(a, Dir True [(b, Dir True [])])]"

lemma nested_walk:
  "os_walk_bottomup (nested_fs a b) [] = [([a, b], [], []), ([a], [b], []), ([], [a], [])]"
  by (simp add: os_walk_bottomup_def nested_fs_def dirnames_def filenames_def)

lemma nested_real_run:
  "delete_empty_folders (nested_fs a b) [] False =
     (Dir True [], 2, [StartCleanup, DeletedEmptyFolder [a, b], DeletedEmptyFolder [a]])"
  unfolding delete_empty_folders_def nested_walk
  by (simp add: nested_fs_def os_listdir_def os_rmdir_def remove_entry_def)

lemma nested_dry_run:
  "delete_empty_folders (nested_fs a b) [] True =
     (nested_fs a b, 1, [StartCleanup, FoundEmptyFolder [a, b]])"
  unfolding delete_empty_folders_def nested_walk
  by (simp add: nested_fs_def os_listdir_def os_rmdir_def remove_entry_def)


lemma os_rmdir_Inr:
  assumes "os_rmdir fs p = Inr fs'"
  shows "p \<noteq> [] \<and> stat fs' q = (if q = p then Absent else stat fs q)"
proof -
  from assms obtain w where d: "lookup fs p = Some (Dir w [])" and ne: "p \<noteq> []"
    and fs': "fs' = remove_entry fs p"
    by (auto simp: os_rmdir_def split: option.splits node.splits if_splits)
  have "lookup fs (p @ x # t) = None" for x t by (simp add: lookup_append d)
  then show ?thesis using stat_remove_leaf[of fs p q] ne fs' by simp
qed

lemma prune_step_root:
  assumes "stat (de_fs st) target_dir = s" and "DeletedEmptyFolder target_dir \<notin> set (de_log st)"
  shows "stat (de_fs (prune_step dry_run target_dir st x)) target_dir = s
       \<and> DeletedEmptyFolder target_dir \<notin> set (de_log (prune_step dry_run target_dir st x))"
proof -
  obtain fs n log_messages where st: "st = (fs, n, log_messages)" by (cases st) auto
  obtain dirpath dirs files where x: "x = (dirpath, dirs, files)" by (cases x) auto
  show ?thesis
  proof (cases "dirpath = target_dir")
    case True
    then show ?thesis using assms by (simp add: st x)
  next
    case False
    then show ?thesis using assms os_rmdir_Inr[of fs dirpath _ target_dir]
      by (auto simp: st x de_fs_def de_log_def split: sum.splits)
  qed
qed

lemma foldl_prune_root:
  "stat (de_fs st) target_dir = s \<Longrightarrow> DeletedEmptyFolder target_dir \<notin> set (de_log st) \<Longrightarrow>
   stat (de_fs (foldl (prune_step dry_run target_dir) st xs)) target_dir = s
     \<and> DeletedEmptyFolder target_dir \<notin> set (de_log (foldl (prune_step dry_run target_dir) st xs))"
proof (induction xs arbitrary: st)
  case Nil
  then show ?case by simp
next
  case (Cons x xs)
  from prune_step_root[OF Cons.prems, of dry_run x] show ?case
    using Cons.IH[of "prune_step dry_run target_dir st x"] by simp
qed

lemma foldl_prune_dry_run:
  "de_fs (foldl (prune_step True target_dir) (fs, n, log_messages) xs) = fs
   \<and> de_count (foldl (prune_step True target_dir) (fs, n, log_messages) xs) =
      n + length (filter (\<lambda>(dirpath, dirs, files).
                    dirpath \<noteq> target_dir \<and> os_listdir fs dirpath = Inr []) xs)"
proof (induction xs arbitrary: n log_messages)
  case Nil
  then show ?case by (simp add: de_fs_def de_count_def)
next
  case (Cons x xs)
  obtain dirpath dirs files where x: "x = (dirpath, dirs, files)" by (cases x) auto
  show ?case
    using Cons.IH[of n log_messages] Cons.IH[of n "log_messages @ [ErrorAccessingFolder dirpath e]" for e]
      Cons.IH[of "n + 1" "log_messages @ [FoundEmptyFolder dirpath]"]
    by (auto simp: x split: sum.splits)
qed

lemma check_file_dry_run:
  "fd_fs (check_file h hashes True st x) = fd_fs st
   \<and> fd_deleted (check_file h hashes True st x) = fd_deleted st"
proof -
  obtain fs found deleted log_messages where st: "st = (fs, found, deleted, log_messages)" by (cases st) auto
  obtain rootdir filename where x: "x = (rootdir, filename)" by (cases x)
  show ?thesis
    by (simp add: st x fd_fs_def fd_deleted_def Let_def split: sum.splits option.splits)
qed

lemma foldl_check_file_dry_run:
  "fd_fs (foldl (check_file h hashes True) st xs) = fd_fs st
   \<and> fd_deleted (foldl (check_file h hashes True) st xs) = fd_deleted st"
proof (induction xs arbitrary: st)
  case Nil
  then show ?case by simp
next
  case (Cons x xs)
  show ?case using Cons.IH[of "check_file h hashes True st x"] check_file_dry_run[of h hashes st x]
    by simp
qed

lemma check_file_found:
  assumes "fd_found st = length (filter is_duplicate_found (fd_log st))"
  shows "fd_found (check_file h hashes dry_run st x) =
           length (filter is_duplicate_found (fd_log (check_file h hashes dry_run st x)))"
proof -
  obtain fs found deleted log_messages where st: "st = (fs, found, deleted, log_messages)" by (cases st) auto
  obtain rootdir filename where x: "x = (rootdir, filename)" by (cases x)
  show ?thesis using assms
    by (simp add: st x fd_found_def fd_log_def Let_def split: sum.splits option.splits)
qed

lemma foldl_check_file_found:
  "fd_found st = length (filter is_duplicate_found (fd_log st)) \<Longrightarrow>
   fd_found (foldl (check_file h hashes dry_run) st xs) =
     length (filter is_duplicate_found (fd_log (foldl (check_file h hashes dry_run) st xs)))"
proof (induction xs arbitrary: st)
  case Nil
  then show ?case by simp
next
  case (Cons x xs)
  from check_file_found[OF Cons.prems, of h hashes dry_run x] show ?case
    using Cons.IH[of "check_file h hashes dry_run st x"] by simp
qed

lemma read_errors_filter: "filter is_duplicate_found (read_errors fs d) = []"
  by (auto simp: filter_empty_conv read_errors_def set_map_filter split: sum.splits)

lemma find_duplicates_found:
  "fd_found (find_duplicates h fs reference_dir check_dir dry_run) =
     length (filter is_duplicate_found (fd_log (find_duplicates h fs reference_dir check_dir dry_run)))"
  unfolding find_duplicates_foldl
  by (rule foldl_check_file_found) (simp add: fd_found_def fd_log_def read_errors_filter)

fun is_found_empty_folder :: "event \<Rightarrow> bool" where
  "is_found_empty_folder (FoundEmptyFolder p) = True"
| "is_found_empty_folder e = False"

fun is_deletion :: "event \<Rightarrow> bool" where
  "is_deletion (Deleted p) = True"
| "is_deletion (DeletedEmptyFolder p) = True"
| "is_deletion e = False"

lemma foldl_prune_dry_run_log:
  "filter is_found_empty_folder (de_log (foldl (prune_step True target_dir) (fs, n, log_messages) xs)) =
     filter is_found_empty_folder log_messages
       @ map (\<lambda>(dirpath, dirs, files). FoundEmptyFolder dirpath)
           (filter (\<lambda>(dirpath, dirs, files).
                      dirpath \<noteq> target_dir \<and> os_listdir fs dirpath = Inr []) xs)
   \<and> filter is_deletion (de_log (foldl (prune_step True target_dir) (fs, n, log_messages) xs)) =
       filter is_deletion log_messages"
proof (induction xs arbitrary: n log_messages)
  case Nil
  then show ?case by (simp add: de_log_def)
next
  case (Cons x xs)
  obtain dirpath dirs files where x: "x = (dirpath, dirs, files)" by (cases x) auto
  show ?case
    using Cons.IH[of n log_messages] Cons.IH[of n "log_messages @ [ErrorAccessingFolder dirpath e]" for e]
      Cons.IH[of "n + 1" "log_messages @ [FoundEmptyFolder dirpath]"]
    by (auto simp: x split: sum.splits)
qed

lemma check_file_dry_run_log:
  "filter is_deletion (fd_log (check_file h hashes True st x)) = filter is_deletion (fd_log st)"
proof -
  obtain fs found deleted log_messages where st: "st = (fs, found, deleted, log_messages)" by (cases st) auto
  obtain rootdir filename where x: "x = (rootdir, filename)" by (cases x)
  show ?thesis
    by (simp add: st x fd_log_def Let_def split: sum.splits option.splits)
qed

lemma foldl_check_file_dry_run_log:
  "filter is_deletion (fd_log (foldl (check_file h hashes True) st xs)) = filter is_deletion (fd_log st)"
proof (induction xs arbitrary: st)
  case Nil
  then show ?case by simp
next
  case (Cons x xs)
  show ?case using Cons.IH[of "check_file h hashes True st x"] check_file_dry_run_log[of h hashes st x]
    by simp
qed

lemma read_errors_no_deletion: "filter is_deletion (read_errors fs d) = []"
  by (auto simp: filter_empty_conv read_errors_def set_map_filter split: sum.splits)

text \<open>
  Claim C1, as amended. With \<^verbatim>\<open>dry_run = True\<close> both operations return the file system they
  were given, and neither logs a deletion (\<^verbatim>\<open>"Deleted: ..."\<close>, \<^verbatim>\<open>"Deleted empty folder: ..."\<close>).
  \<^verbatim>\<open>find_duplicates\<close> returns \<^verbatim>\<open>deleted_count = 0\<close>, and its \<^verbatim>\<open>found_count\<close> is the number of
  \<^verbatim>\<open>"Duplicate found"\<close> lines of its log. \<^verbatim>\<open>delete_empty_folders\<close> has one counter only: in a
  dry run it returns the number of directories other than the target that are empty when
  visited, and its log holds one \<^verbatim>\<open>"Found empty folder"\<close> line for each of them, in the order of
  the walk, so the counter is the number of these lines.
\<close>

theorem dry_run_changes_nothing:
  "fd_fs (find_duplicates h fs reference_dir check_dir True) = fs
   \<and> fd_deleted (find_duplicates h fs reference_dir check_dir True) = 0
   \<and> fd_found (find_duplicates h fs reference_dir check_dir True) =
       length (filter is_duplicate_found (fd_log (find_duplicates h fs reference_dir check_dir True)))
   \<and> filter is_deletion (fd_log (find_duplicates h fs reference_dir check_dir True)) = []
   \<and> de_fs (delete_empty_folders fs target_dir True) = fs
   \<and> de_count (delete_empty_folders fs target_dir True) =
       length (filter (\<lambda>(dirpath, dirs, files).
                  dirpath \<noteq> target_dir \<and> os_listdir fs dirpath = Inr [])
               (os_walk_bottomup fs target_dir))
   \<and> de_count (delete_empty_folders fs target_dir True) =
       length (filter is_found_empty_folder (de_log (delete_empty_folders fs target_dir True)))
   \<and> filter is_found_empty_folder (de_log (delete_empty_folders fs target_dir True)) =
       map (\<lambda>(dirpath, dirs, files). FoundEmptyFolder dirpath)
         (filter (\<lambda>(dirpath, dirs, files).
                    dirpath \<noteq> target_dir \<and> os_listdir fs dirpath = Inr [])
            (os_walk_bottomup fs target_dir))
   \<and> filter is_deletion (de_log (delete_empty_folders fs target_dir True)) = []"
proof -
  have 1: "fd_fs (find_duplicates h fs reference_dir check_dir True) = fs
     \<and> fd_deleted (find_duplicates h fs reference_dir check_dir True) = 0"
    unfolding find_duplicates_foldl
    by (simp add: foldl_check_file_dry_run) (simp add: fd_fs_def fd_deleted_def)
  have 2: "de_fs (delete_empty_folders fs target_dir True) = fs
     \<and> de_count (delete_empty_folders fs target_dir True) =
       length (filter (\<lambda>(dirpath, dirs, files).
                  dirpath \<noteq> target_dir \<and> os_listdir fs dirpath = Inr [])
               (os_walk_bottomup fs target_dir))"
    unfolding delete_empty_folders_def
    using foldl_prune_dry_run[of target_dir fs 0 "[StartCleanup]" "os_walk_bottomup fs target_dir"]
    by simp
  have 3: "filter is_deletion (fd_log (find_duplicates h fs reference_dir check_dir True)) = []"
    unfolding find_duplicates_foldl
    by (simp add: foldl_check_file_dry_run_log) (simp add: fd_log_def read_errors_no_deletion)
  have 4: "filter is_found_empty_folder (de_log (delete_empty_folders fs target_dir True)) =
       map (\<lambda>(dirpath, dirs, files). FoundEmptyFolder dirpath)
         (filter (\<lambda>(dirpath, dirs, files).
                    dirpath \<noteq> target_dir \<and> os_listdir fs dirpath = Inr [])
            (os_walk_bottomup fs target_dir))
     \<and> filter is_deletion (de_log (delete_empty_folders fs target_dir True)) = []"
    unfolding delete_empty_folders_def
    using foldl_prune_dry_run_log[of target_dir fs 0 "[StartCleanup]" "os_walk_bottomup fs target_dir"]
    by simp
  have 5: "de_count (delete_empty_folders fs target_dir True) =
       length (filter is_found_empty_folder (de_log (delete_empty_folders fs target_dir True)))"
    using 2 4 by simp
  show ?thesis using 1 2 3 4 5 find_duplicates_found[of h fs reference_dir check_dir True] by simp
qed

text \<open>
  Claim C1, as stated, fails for \<^verbatim>\<open>delete_empty_folders\<close>: a dry run on \<^verbatim>\<open>A/B\<close> leaves the
  tree as it is and returns the count 1, not 0.
\<close>

theorem dry_run_count_counterexample:
  "de_fs (delete_empty_folders (nested_fs ''A'' ''B'') [] True) = nested_fs ''A'' ''B''
   \<and> de_count (delete_empty_folders (nested_fs ''A'' ''B'') [] True) = 1
   \<and> de_count (delete_empty_folders (nested_fs ''A'' ''B'') [] True) \<noteq> 0"
  by (simp add: nested_dry_run de_fs_def de_count_def)

text \<open>
  Claim C8. On the tree \<^verbatim>\<open>A/B\<close> one real run removes \<open>b\<close> and then \<open>a\<close>, which is empty
  by the time it is visited, and returns the count 2. For every tree, target and mode, the
  target directory keeps its status and no line reports its deletion.
\<close>

theorem prune_bottom_up_keeps_root:
  "delete_empty_folders (nested_fs a b) [] False =
     (Dir True [], 2, [StartCleanup, DeletedEmptyFolder [a, b], DeletedEmptyFolder [a]])
   \<and> stat (de_fs (delete_empty_folders fs target_dir dry_run)) target_dir = stat fs target_dir
   \<and> DeletedEmptyFolder target_dir \<notin> set (de_log (delete_empty_folders fs target_dir dry_run))"
  unfolding delete_empty_folders_def[of fs]
  using foldl_prune_root[of "(fs, 0, [StartCleanup])" target_dir "stat fs target_dir" dry_run
      "os_walk_bottomup fs target_dir"]
  by (simp add: nested_real_run de_fs_def de_log_def)

section \<open>\<^verbatim>\<open>FileManager._get_unique_filename\<close>\<close>

text \<open>
  \<^verbatim>\<open>os.path.splitext\<close> splits at the last dot of the last path component, unless only
  dots come before it in that component. \<^verbatim>\<open>str.rfind\<close> is \<open>-1\<close> when the character is
  absent.
\<close>

definition rfind :: "string \<Rightarrow> char \<Rightarrow> int" where
  "rfind p c = int (length (dropWhile (\<lambda>x. x \<noteq> c) (rev p))) - 1"

definition splitext :: "string \<Rightarrow> string \<times> string" where
  "splitext p =
     (let sepIndex = rfind p CHR ''/''; dotIndex = rfind p CHR ''.''
      in if dotIndex > sepIndex
            \<and> list_ex (\<lambda>ch. ch \<noteq> CHR ''.'') (drop (nat (sepIndex + 1)) (take (nat dotIndex) p))
         then (take (nat dotIndex) p, drop (nat dotIndex) p)
         else (p, []))"

text \<open>\<^verbatim>\<open>f"{base_name}({counter}){extension}"\<close>: the counter in decimal.\<close>

definition digit_char :: "nat \<Rightarrow> char" where
  "digit_char d = ''0123456789'' ! d"

fun str_of_nat :: "nat \<Rightarrow> string" where
  "str_of_nat n = (if n < 10 then [digit_char n] else str_of_nat (n div 10) @ [digit_char (n mod 10)])"

definition numbered :: "string \<Rightarrow> nat \<Rightarrow> string \<Rightarrow> string" where
  "numbered base_name counter extension =
     base_name @ ''('' @ str_of_nat counter @ '')'' @ extension"


lemma splitext_append: "fst (splitext p) @ snd (splitext p) = p"
  by (simp add: splitext_def Let_def)

declare str_of_nat.simps [simp del]

lemma digit_char_inj: "a < 10 \<Longrightarrow> b < 10 \<Longrightarrow> digit_char a = digit_char b \<Longrightarrow> a = b"
proof -
  assume a: "a < 10" and b: "b < 10" and e: "digit_char a = digit_char b"
  have d: "distinct ''0123456789''" by simp
  have "a < length ''0123456789''" "b < length ''0123456789''" using a b by simp_all
  with d e show "a = b" unfolding digit_char_def by (simp add: nth_eq_iff_index_eq)
qed

lemma str_of_nat_length: "length (str_of_nat n) = 1 \<longleftrightarrow> n < 10"
proof (induction n rule: str_of_nat.induct)
  case (1 n)
  show ?case
  proof (cases "n < 10")
    case True
    then show ?thesis by (simp add: str_of_nat.simps[of n])
  next
    case False
    have "str_of_nat (n div 10) \<noteq> []" by (subst str_of_nat.simps) simp
    then show ?thesis using False by (simp add: str_of_nat.simps[of n])
  qed
qed

lemma str_of_nat_inj: "str_of_nat m = str_of_nat n \<Longrightarrow> m = n"
proof (induction m arbitrary: n rule: str_of_nat.induct)
  case (1 m)
  show ?case
  proof (cases "m < 10")
    case True
    then have "n < 10" using 1(2) str_of_nat_length[of m] str_of_nat_length[of n] by simp
    then show ?thesis using True 1(2) digit_char_inj
      by (simp add: str_of_nat.simps[of m] str_of_nat.simps[of n])
  next
    case False
    then have n: "\<not> n < 10" using 1(2) str_of_nat_length[of m] str_of_nat_length[of n] by simp
    from 1(2) False n have e: "str_of_nat (m div 10) = str_of_nat (n div 10)"
      and d: "digit_char (m mod 10) = digit_char (n mod 10)"
      by (simp_all add: str_of_nat.simps[of m] str_of_nat.simps[of n])
    from 1(1)[OF False e] have "m div 10 = n div 10" .
    moreover from d have "m mod 10 = n mod 10" by (intro digit_char_inj) simp_all
    ultimately show ?thesis by (metis div_mult_mod_eq)
  qed
qed

lemma numbered_inj: "numbered b j e = numbered b k e \<Longrightarrow> j = k"
  by (simp add: numbered_def str_of_nat_inj)


lemma exists_in_listing:
  "os_path_exists fs (dest @ [n]) \<Longrightarrow>
     n \<in> (case lookup fs dest of Some (Dir w es) \<Rightarrow> fst ` set es | _ \<Rightarrow> {})"
  by (auto simp: os_path_exists_def lookup_append split: option.splits node.splits)
    (metis fst_conv image_eqI map_of_SomeD)

lemma finite_numbered_existing:
  "finite {k. os_path_exists fs (dest @ [numbered b k e])}"
proof -
  let ?N = "case lookup fs dest of Some (Dir w es) \<Rightarrow> fst ` set es | _ \<Rightarrow> {}"
  have fin: "finite ?N" by (auto split: option.splits node.splits)
  have "inj (\<lambda>k. numbered b k e)" by (auto simp: inj_def dest: numbered_inj)
  then have "finite ((\<lambda>k. numbered b k e) -` ?N)" using fin by (rule finite_vimageI[rotated])
  moreover have "{k. os_path_exists fs (dest @ [numbered b k e])} \<subseteq> (\<lambda>k. numbered b k e) -` ?N"
    using exists_in_listing[of fs dest] by auto
  ultimately show ?thesis by (rule rev_finite_subset)
qed

text \<open>
  The \<^verbatim>\<open>while os.path.exists(os.path.join(destination_folder, new_filename))\<close> loop, on
  its two variables. It terminates because a directory lists finitely many names and the
  numbered names are pairwise different.
\<close>

function get_unique_loop ::
  "'c node \<Rightarrow> path \<Rightarrow> string \<Rightarrow> string \<Rightarrow> nat \<Rightarrow> string \<Rightarrow> string" where
  "get_unique_loop fs destination_folder base_name extension counter new_filename =
     (if os_path_exists fs (destination_folder @ [new_filename])
      then get_unique_loop fs destination_folder base_name extension (counter + 1)
             (numbered base_name (counter + 1) extension)
      else new_filename)"
  by pat_completeness auto
termination
proof (relation "measure (\<lambda>(fs, dest, b, e, c, nf).
          2 * card {k. c < k \<and> os_path_exists fs (dest @ [numbered b k e])}
          + (if os_path_exists fs (dest @ [nf]) then 1 else 0))", goal_cases)
  case 1
  then show ?case by simp
next
  case (2 fs dest b e c nf)
  let ?E = "\<lambda>k. os_path_exists fs (dest @ [numbered b k e])"
  let ?S = "{k. c < k \<and> ?E k}" and ?S' = "{k. c + 1 < k \<and> ?E k}"
  have fin: "finite ?S'" using finite_numbered_existing[of fs dest b e]
    by (rule rev_finite_subset) auto
  have S: "?S = (if ?E (c + 1) then insert (c + 1) ?S' else ?S')"
    by (auto simp: less_Suc_eq Suc_lessI) (metis Suc_lessI)+
  have "card ?S = (if ?E (c + 1) then card ?S' + 1 else card ?S')"
    using fin by (subst S) simp
  then show ?case using 2 by simp
qed

declare get_unique_loop.simps [simp del]

definition get_unique_filename :: "'c node \<Rightarrow> path \<Rightarrow> string \<Rightarrow> string" where
  "get_unique_filename fs destination_folder original_filename =
     (let (base_name, extension) = splitext original_filename
      in get_unique_loop fs destination_folder base_name extension 0 original_filename)"


lemma get_unique_loop_spec:
  "\<not> os_path_exists fs (d @ [get_unique_loop fs d b e c nf])
   \<and> (os_path_exists fs (d @ [nf]) \<longrightarrow>
        (\<exists>k>c. get_unique_loop fs d b e c nf = numbered b k e
             \<and> (\<forall>j. c < j \<and> j < k \<longrightarrow> os_path_exists fs (d @ [numbered b j e]))))
   \<and> (\<not> os_path_exists fs (d @ [nf]) \<longrightarrow> get_unique_loop fs d b e c nf = nf)"
proof (induction fs d b e c nf rule: get_unique_loop.induct)
  case (1 fs d b e c nf)
  show ?case
  proof (cases "os_path_exists fs (d @ [nf])")
    case False
    then show ?thesis by (simp add: get_unique_loop.simps[of fs d b e c nf])
  next
    case True
    let ?nf' = "numbered b (c + 1) e"
    let ?r = "get_unique_loop fs d b e (c + 1) ?nf'"
    have r: "get_unique_loop fs d b e c nf = ?r"
      using True by (simp add: get_unique_loop.simps[of fs d b e c nf])
    note ih = 1[OF True]
    from ih have nex: "\<not> os_path_exists fs (d @ [?r])" by blast
    have "\<exists>k>c. ?r = numbered b k e
             \<and> (\<forall>j. c < j \<and> j < k \<longrightarrow> os_path_exists fs (d @ [numbered b j e]))"
    proof (cases "os_path_exists fs (d @ [?nf'])")
      case False
      then have "?r = numbered b (c + 1) e" using ih by blast
      then show ?thesis by (intro exI[of _ "c + 1"]) auto
    next
      case T: True
      then obtain k where k: "k > c + 1" "?r = numbered b k e"
        "\<forall>j. c + 1 < j \<and> j < k \<longrightarrow> os_path_exists fs (d @ [numbered b j e])"
        using ih by blast
      have "os_path_exists fs (d @ [numbered b j e])" if "c < j" "j < k" for j
      proof (cases "j = c + 1")
        case True
        then show ?thesis using T by simp
      next
        case False
        then show ?thesis using that k(3) by auto
      qed
      then show ?thesis using k(1,2) by (intro exI[of _ k]) auto
    qed
    then show ?thesis unfolding r using nex True by blast
  qed
qed


text \<open>A directory that holds \<^verbatim>\<open>photo.png\<close> and \<^verbatim>\<open>photo(1).png\<close>.\<close>

definition photo_fs :: "unit node" where
  "photo_fs = Dir True [(''pics'', Dir True
      [(''photo.png'', File True True ()), (''photo(1).png'', File True True ())])]"

lemma splitext_photo: "splitext ''photo.png'' = (''photo'', ''.png'')"
  by (simp add: splitext_def rfind_def Let_def)

lemma splitext_new: "splitext ''new.png'' = (''new'', ''.png'')"
  by (simp add: splitext_def rfind_def Let_def)

lemma numbered_photo:
  "numbered ''photo'' 1 ''.png'' = ''photo(1).png''"
  "numbered ''photo'' 2 ''.png'' = ''photo(2).png''"
  "numbered ''photo'' (Suc 0) ''.png'' = ''photo(1).png''"
  "numbered ''photo'' (Suc (Suc 0)) ''.png'' = ''photo(2).png''"
  by (simp_all add: numbered_def str_of_nat.simps digit_char_def)

lemma photo_fs_exists:
  "os_path_exists photo_fs [''pics'', ''photo.png'']"
  "os_path_exists photo_fs [''pics'', ''photo(1).png'']"
  "\<not> os_path_exists photo_fs [''pics'', ''photo(2).png'']"
  "\<not> os_path_exists photo_fs [''pics'', ''new.png'']"
  by (simp_all add: photo_fs_def os_path_exists_def)

lemma photo_fs_unique:
  "get_unique_filename photo_fs [''pics''] ''photo.png'' = ''photo(2).png''"
proof -
  have 2: "get_unique_loop photo_fs [''pics''] ''photo'' ''.png'' (Suc (Suc 0)) ''photo(2).png'' = ''photo(2).png''"
    by (subst get_unique_loop.simps) (simp add: photo_fs_exists)
  have 1: "get_unique_loop photo_fs [''pics''] ''photo'' ''.png'' (Suc 0) ''photo(1).png'' = ''photo(2).png''"
    by (subst get_unique_loop.simps) (simp add: photo_fs_exists numbered_photo 2)
  have 0: "get_unique_loop photo_fs [''pics''] ''photo'' ''.png'' 0 ''photo.png'' = ''photo(2).png''"
    by (subst get_unique_loop.simps) (simp add: photo_fs_exists numbered_photo 1)
  show ?thesis by (simp add: get_unique_filename_def splitext_photo 0)
qed


text \<open>
  Claim C6. The resolver returns a name that does not exist in the destination directory;
  it returns the candidate itself when that does not exist; otherwise it returns
  \<open>stem(k)extension\<close> for the least \<open>k \<ge> 1\<close> whose name does not exist (every smaller
  numbered name exists). Existence is \<^verbatim>\<open>os.path.exists\<close> on the tree at the time of the call.
\<close>

theorem unique_name_resolver:
  "\<not> os_path_exists fs (dest @ [get_unique_filename fs dest name])
   \<and> (\<not> os_path_exists fs (dest @ [name]) \<longrightarrow> get_unique_filename fs dest name = name)
   \<and> (os_path_exists fs (dest @ [name]) \<longrightarrow>
        (\<exists>k\<ge>1. get_unique_filename fs dest name =
                  numbered (fst (splitext name)) k (snd (splitext name))
          \<and> (\<forall>j. 1 \<le> j \<and> j < k \<longrightarrow>
                os_path_exists fs (dest @ [numbered (fst (splitext name)) j (snd (splitext name))]))))"
  using get_unique_loop_spec[of fs dest "fst (splitext name)" "snd (splitext name)" 0 name]
  by (simp add: get_unique_filename_def split_beta Suc_le_eq)

theorem unique_name_resolver_witness:
  "os_path_exists photo_fs ([''pics''] @ [''photo.png''])
   \<and> os_path_exists photo_fs ([''pics''] @ [numbered ''photo'' 1 ''.png''])
   \<and> get_unique_filename photo_fs [''pics''] ''photo.png'' = numbered ''photo'' 2 ''.png''
   \<and> numbered ''photo'' 2 ''.png'' = ''photo(2).png''
   \<and> \<not> os_path_exists photo_fs ([''pics''] @ [get_unique_filename photo_fs [''pics''] ''photo.png''])
   \<and> \<not> os_path_exists photo_fs ([''pics''] @ [''new.png''])
   \<and> get_unique_filename photo_fs [''pics''] ''new.png'' = ''new.png''"
  using unique_name_resolver[of photo_fs "[''pics'']" "''photo.png''"]
    unique_name_resolver[of photo_fs "[''pics'']" "''new.png''"]
  by (simp add: photo_fs_unique photo_fs_exists numbered_photo)

section \<open>Python floats\<close>

text \<open>
  A Python \<^verbatim>\<open>float\<close> is an IEEE 754 double: \<open>Finite m e\<close> stands for \<^verbatim>\<open>m * 2**e\<close>,
  \<open>Infinity negative\<close> for \<^verbatim>\<open>inf\<close> and \<^verbatim>\<open>-inf\<close>. The product of two floats is the exact product
  rounded to the nearest double, ties to even: to 53 bits, or to a multiple of \<^verbatim>\<open>2**-1074\<close> in the
  subnormal range, and to infinity from \<^verbatim>\<open>2**1024\<close> on. In \<^verbatim>\<open>i * x\<close> with an \<^verbatim>\<open>int i\<close> the integer is
  converted first, by the same rounding, and \<^verbatim>\<open>OverflowError\<close> is raised when it is too large.
  \<^verbatim>\<open>int(x)\<close> truncates towards zero and raises \<^verbatim>\<open>OverflowError\<close> for an infinity and
  \<^verbatim>\<open>ValueError\<close> for a NaN. The sign of a zero is not kept; no operation here reads it.
\<close>

datatype pyfloat = Finite int int | Infinity bool | NaN

function bit_length :: "int \<Rightarrow> nat" where
  "bit_length n = (if n \<le> 0 then 0 else bit_length (n div 2) + 1)"
  by pat_completeness auto
termination
  by (relation "measure nat") auto

declare bit_length.simps [simp del]

definition round_half_even :: "int \<Rightarrow> nat \<Rightarrow> int" where
  "round_half_even m k =
     (let q = m div 2 ^ k; r = m mod 2 ^ k
      in if k = 0 then m
         else if 2 ^ (k - 1) < r \<or> (r = 2 ^ (k - 1) \<and> odd q) then q + 1 else q)"

definition make_float :: "bool \<Rightarrow> int \<Rightarrow> int \<Rightarrow> pyfloat" where
  "make_float negative q e =
     (if 0 < q \<and> 1024 < int (bit_length q) + e then Infinity negative
      else Finite (if negative then - q else q) e)"

definition round_double :: "bool \<Rightarrow> int \<Rightarrow> int \<Rightarrow> pyfloat" where
  "round_double negative m e =
     (let k = max (int (bit_length m) - 53) (- 1074 - e)
      in if k \<le> 0 then make_float negative m e
         else make_float negative (round_half_even m (nat k)) (e + k))"

definition float_of_int :: "int \<Rightarrow> pyerror + pyfloat" where
  "float_of_int i =
     (case round_double (i < 0) \<bar>i\<bar> 0 of
        Infinity s \<Rightarrow> Inl OverflowError
      | x \<Rightarrow> Inr x)"

fun float_mul :: "pyfloat \<Rightarrow> pyfloat \<Rightarrow> pyfloat" where
  "float_mul (Finite m1 e1) (Finite m2 e2) =
     round_double ((m1 < 0) \<noteq> (m2 < 0)) \<bar>m1 * m2\<bar> (e1 + e2)"
| "float_mul (Finite m e) (Infinity s) = (if m = 0 then NaN else Infinity ((m < 0) \<noteq> s))"
| "float_mul (Infinity s) (Finite m e) = (if m = 0 then NaN else Infinity ((m < 0) \<noteq> s))"
| "float_mul (Infinity s1) (Infinity s2) = Infinity (s1 \<noteq> s2)"
| "float_mul NaN y = NaN"
| "float_mul x NaN = NaN"

fun py_int :: "pyfloat \<Rightarrow> pyerror + int" where
  "py_int (Finite m e) =
     Inr (if 0 \<le> e then m * 2 ^ nat e
          else if 0 \<le> m then m div 2 ^ nat (- e) else - ((- m) div 2 ^ nat (- e)))"
| "py_int (Infinity s) = Inl OverflowError"
| "py_int NaN = Inl ValueError"



text \<open>\<^verbatim>\<open>int(original * percentage)\<close> for an \<^verbatim>\<open>int original\<close> and a \<^verbatim>\<open>float percentage\<close>.\<close>

definition scaled_dimension :: "int \<Rightarrow> pyfloat \<Rightarrow> pyerror + int" where
  "scaled_dimension original percentage =
     (case float_of_int original of
        Inl e \<Rightarrow> Inl e
      | Inr x \<Rightarrow> py_int (float_mul x percentage))"














section \<open>Images\<close>

text \<open>
  What the transcoder and the frame extractor use of a Pillow image: its size, its mode and,
  for a multi-frame file, its frames. Pixels are not modelled. A file's content is an image
  (its frames) or data that \<^verbatim>\<open>Image.open\<close> cannot identify. \<^verbatim>\<open>Image.resize\<close> keeps the mode and
  raises \<^verbatim>\<open>ValueError\<close> for a width or height below 1; whether a format can write a mode is
  the parameter \<open>can_write\<close> of \<open>image_save\<close>. The \<^verbatim>\<open>quality\<close> and \<^verbatim>\<open>optimize\<close>
  arguments of \<^verbatim>\<open>save\<close> change the encoded bytes only and are left out.
\<close>

record image =
  im_width :: int
  im_height :: int
  im_mode :: string

datatype content = Data | Picture "image list"

definition image_open :: "content node \<Rightarrow> path \<Rightarrow> pyerror + image list" where
  "image_open fs p =
     (case open_read fs p of
        Inl e \<Rightarrow> Inl e
      | Inr Data \<Rightarrow> Inl UnidentifiedImageError
      | Inr (Picture frames) \<Rightarrow> if frames = [] then Inl UnidentifiedImageError else Inr frames)"

definition image_resize :: "image \<Rightarrow> int \<times> int \<Rightarrow> pyerror + image" where
  "image_resize img new_size =
     (if fst new_size < 1 \<or> snd new_size < 1 then Inl ValueError
      else Inr (img\<lparr>im_width := fst new_size, im_height := snd new_size\<rparr>))"

definition image_convert :: "image \<Rightarrow> string \<Rightarrow> image" where
  "image_convert img m = img\<lparr>im_mode := m\<rparr>"

definition write_file :: "content node \<Rightarrow> path \<Rightarrow> content \<Rightarrow> pyerror + content node" where
  "write_file fs p c =
     (if p = [] then Inl IsADirectoryError
      else
        case lookup fs (butlast p) of
          None \<Rightarrow> Inl FileNotFoundError
        | Some (File r w c') \<Rightarrow> Inl NotADirectoryError
        | Some (Dir w es) \<Rightarrow>
            (case map_of es (last p) of
               None \<Rightarrow> Inr (modify_at (butlast p) (\<lambda>es. es @ [(last p, File True True c)]) fs)
             | Some (Dir w' sub) \<Rightarrow> Inl IsADirectoryError
             | Some (File r w' c') \<Rightarrow>
                 Inr (modify_at (butlast p)
                        (map (\<lambda>(n, m). if n = last p then (n, File r w' c) else (n, m))) fs)))"

definition image_save ::
  "(string \<Rightarrow> string \<Rightarrow> bool) \<Rightarrow> content node \<Rightarrow> path \<Rightarrow> string \<Rightarrow> image
     \<Rightarrow> pyerror + content node" where
  "image_save can_write fs p fmt img =
     (if can_write fmt (im_mode img) then write_file fs p (Picture [img]) else Inl SaveError)"

text \<open>
  A character is a code point below 256. On these \<^verbatim>\<open>str.lower\<close> changes the letters
  \<^verbatim>\<open>A\<close> to \<^verbatim>\<open>Z\<close> and the capital letters \<^verbatim>\<open>U+00C0\<close> to \<^verbatim>\<open>U+00DE\<close> (not \<^verbatim>\<open>U+00D7\<close>, the
  multiplication sign), each to the code point 32 above it. Names with a code point from 256
  on are outside the model.
\<close>

definition upper_chars :: "char list" where
  "upper_chars =
     ''ABCDEFGHIJKLMNOPQRSTUVWXYZ'' @
       [
          CHR 0xC0, CHR 0xC1, CHR 0xC2, CHR 0xC3, CHR 0xC4, CHR 0xC5, CHR 0xC6, CHR 0xC7,
          CHR 0xC8, CHR 0xC9, CHR 0xCA, CHR 0xCB, CHR 0xCC, CHR 0xCD, CHR 0xCE, CHR 0xCF,
          CHR 0xD0, CHR 0xD1, CHR 0xD2, CHR 0xD3, CHR 0xD4, CHR 0xD5, CHR 0xD6, CHR 0xD8,
          CHR 0xD9, CHR 0xDA, CHR 0xDB, CHR 0xDC, CHR 0xDD, CHR 0xDE]"

definition lower_chars :: "char list" where
  "lower_chars =
     ''abcdefghijklmnopqrstuvwxyz'' @
       [
          CHR 0xE0, CHR 0xE1, CHR 0xE2, CHR 0xE3, CHR 0xE4, CHR 0xE5, CHR 0xE6, CHR 0xE7,
          CHR 0xE8, CHR 0xE9, CHR 0xEA, CHR 0xEB, CHR 0xEC, CHR 0xED, CHR 0xEE, CHR 0xEF,
          CHR 0xF0, CHR 0xF1, CHR 0xF2, CHR 0xF3, CHR 0xF4, CHR 0xF5, CHR 0xF6, CHR 0xF8,
          CHR 0xF9, CHR 0xFA, CHR 0xFB, CHR 0xFC, CHR 0xFD, CHR 0xFE]"

definition lower_char :: "char \<Rightarrow> char" where
  "lower_char c = (case map_of (zip upper_chars lower_chars) c of Some l \<Rightarrow> l | None \<Rightarrow> c)"

definition str_lower :: "string \<Rightarrow> string" where
  "str_lower s = map lower_char s"

definition endswith :: "string \<Rightarrow> string \<Rightarrow> bool" where
  "endswith s suffix = (length suffix \<le> length s \<and> drop (length s - length suffix) s = suffix)"

definition supported_formats :: "string list" where
  "supported_formats =
     [''.jpg'', ''.jpeg'', ''.png'', ''.bmp'', ''.gif'', ''.tiff'', ''.webp'',
      ''.psd'', ''.hdr'', ''.tga'', ''.xcf'', ''.miff'', ''.dcm'', ''.xpm'', ''.pcx'',
      ''.fits'', ''.ppm'', ''.pgm'', ''.pfm'', ''.mng'', ''.dds'', ''.otb'', ''.pdf'',
      ''.avif'', ''.heic'', ''.heif'',
      ''.cr2'', ''.rw2'', ''.nef'', ''.arw'', ''.sr2'', ''.orf'', ''.pef'', ''.raf'', ''.srw'', ''.mrw'',
      ''.dcr'', ''.dng'', ''.erf'', ''.3fr'', ''.ari'', ''.srf'', ''.bay'', ''.crw'', ''.cap'', ''.iiq'',
      ''.eip'', ''.dcs'', ''.drf'', ''.k25'', ''.kdc'', ''.fff'', ''.mef'', ''.mos'', ''.nrw'', ''.ptx'',
      ''.pxn'', ''.r3d'', ''.rwl'', ''.rwz'', ''.x3f'', ''.mdc'']"

section \<open>\<^verbatim>\<open>ImageProcessor.batch_process_images\<close>\<close>

definition transcode_image :: "image \<Rightarrow> pyfloat \<Rightarrow> string \<Rightarrow> pyerror + image" where
  "transcode_image img percentage output_format =
     (let original_width = im_width img;
          original_height = im_height img
      in case scaled_dimension original_width percentage of
           Inl e \<Rightarrow> Inl e
         | Inr new_width \<Rightarrow>
             (case scaled_dimension original_height percentage of
                Inl e \<Rightarrow> Inl e
              | Inr new_height \<Rightarrow>
                  (case image_resize img (new_width, new_height) of
                     Inl e \<Rightarrow> Inl e
                   | Inr resized_img \<Rightarrow>
                       if str_lower output_format \<in> set [''jpeg'', ''webp''] then
                         (if im_mode resized_img \<in> set [''RGBA'', ''P'']
                          then Inr (image_convert resized_img ''RGB'')
                          else Inr resized_img)
                       else Inr resized_img)))"

fun process_image ::
  "(string \<Rightarrow> string \<Rightarrow> bool) \<Rightarrow> path \<Rightarrow> path \<Rightarrow> pyfloat \<Rightarrow> string
     \<Rightarrow> content node \<times> nat \<Rightarrow> string \<Rightarrow> content node \<times> nat" where
  "process_image can_write source_dir dest_dir percentage output_format (fs, processed_count) filename =
     (let filepath = source_dir @ [filename] in
      case image_open fs filepath of
        Inl e \<Rightarrow> (fs, processed_count)
      | Inr frames \<Rightarrow>
          (case frames of
             [] \<Rightarrow> (fs, processed_count)
           | img # rest \<Rightarrow>
               (case transcode_image img percentage output_format of
                  Inl e \<Rightarrow> (fs, processed_count)
                | Inr resized_img \<Rightarrow>
                    (let base_name = fst (splitext filename);
                         output_filepath = dest_dir @ [base_name @ ''.'' @ str_lower output_format]
                     in case image_save can_write fs output_filepath (str_lower output_format) resized_img of
                          Inl e \<Rightarrow> (fs, processed_count)
                        | Inr fs' \<Rightarrow> (fs', processed_count + 1)))))"

definition batch_process_images ::
  "(string \<Rightarrow> string \<Rightarrow> bool) \<Rightarrow> content node \<Rightarrow> path \<Rightarrow> path \<Rightarrow> pyfloat \<Rightarrow> string
     \<Rightarrow> pyerror + content node \<times> nat" where
  "batch_process_images can_write fs source_dir dest_dir percentage output_format =
     (if \<not> os_path_isdir fs source_dir \<or> \<not> os_path_isdir fs dest_dir then Inl ValueError
      else
        case os_makedirs fs dest_dir of
          Inl e \<Rightarrow> Inl e
        | Inr fs1 \<Rightarrow>
            (case os_listdir fs1 source_dir of
               Inl e \<Rightarrow> Inl e
             | Inr names \<Rightarrow>
                 (let image_files =
                        filter (\<lambda>filename. list_ex (endswith (str_lower filename)) supported_formats) names
                  in if image_files = [] then Inr (fs1, 0)
                     else Inr (foldl (process_image can_write source_dir dest_dir percentage output_format)
                                 (fs1, 0) image_files))))"

subsection \<open>What the transcoder writes\<close>





definition image_files :: "content node \<Rightarrow> path \<Rightarrow> string list" where
  "image_files fs source_dir =
     (case os_listdir fs source_dir of
        Inl e \<Rightarrow> []
      | Inr names \<Rightarrow>
          filter (\<lambda>filename. list_ex (endswith (str_lower filename)) supported_formats) names)"






























section \<open>\<^verbatim>\<open>ImageProcessor.extract_gif_frames\<close>\<close>

definition zfill4 :: "string \<Rightarrow> string" where
  "zfill4 s = replicate (4 - length s) CHR ''0'' @ s"

function extract_frames ::
  "content node \<Rightarrow> image list \<Rightarrow> path \<Rightarrow> string \<Rightarrow> nat \<Rightarrow> nat \<Rightarrow> content node \<times> nat" where
  "extract_frames fs frames output_gif_folder gif_name_without_ext frame_count total_frames_extracted =
     (if frame_count < length frames then
        (let frame = frames ! frame_count;
             frame = (if im_mode frame \<noteq> ''RGBA'' then image_convert frame ''RGBA'' else frame);
             frame_output_path =
               output_gif_folder @
                 [gif_name_without_ext @ ''_frame_'' @ zfill4 (str_of_nat frame_count) @ ''.png'']
         in case write_file fs frame_output_path (Picture [frame]) of
              Inl e \<Rightarrow> (fs, total_frames_extracted)
            | Inr fs' \<Rightarrow>
                extract_frames fs' frames output_gif_folder gif_name_without_ext
                  (frame_count + 1) (total_frames_extracted + 1))
      else (fs, total_frames_extracted))"
  by pat_completeness auto
termination
  by (relation "measure (\<lambda>(fs, frames, folder, name, frame_count, total). length frames - frame_count)")
    auto

declare extract_frames.simps [simp del]

fun extract_gif ::
  "path \<Rightarrow> path \<Rightarrow> bool \<Rightarrow> content node \<times> nat \<Rightarrow> path \<Rightarrow> content node \<times> nat" where
  "extract_gif input_path output_base_directory is_single_file (fs, total_frames_extracted) gif_path =
     (let gif_filename = last gif_path;
          gif_name_without_ext = fst (splitext gif_filename);
          output_gif_folder =
            (if is_single_file then output_base_directory @ [gif_name_without_ext]
             else output_base_directory @ drop (length input_path) (butlast gif_path)
                    @ [gif_name_without_ext])
      in case os_makedirs fs output_gif_folder of
           Inl e \<Rightarrow> (fs, total_frames_extracted)
         | Inr fs1 \<Rightarrow>
             (case image_open fs1 gif_path of
                Inl e \<Rightarrow> (fs1, total_frames_extracted)
              | Inr frames \<Rightarrow>
                  extract_frames fs1 frames output_gif_folder gif_name_without_ext 0
                    total_frames_extracted))"

text \<open>
  In directory mode the source walks \<^verbatim>\<open>os.walk(input_directory)\<close>. No parameter, local
  variable or module-level name \<^verbatim>\<open>input_directory\<close> exists (the parameter is
  \<^verbatim>\<open>input_path\<close>), so evaluating the name raises \<^verbatim>\<open>NameError\<close>, outside every \<^verbatim>\<open>try\<close>.
\<close>

definition extract_gif_frames ::
  "content node \<Rightarrow> path \<Rightarrow> path \<Rightarrow> bool \<Rightarrow> pyerror + content node \<times> nat" where
  "extract_gif_frames fs input_path output_base_directory is_single_file =
     (case (if is_single_file then
              (if \<not> os_path_isfile fs input_path
                  \<or> \<not> (input_path \<noteq> [] \<and> endswith (str_lower (last input_path)) ''.gif'')
               then Inl ValueError
               else Inr [input_path])
            else
              (if \<not> os_path_isdir fs input_path then Inl FileNotFoundError
               else Inl NameError)) of
        Inl e \<Rightarrow> Inl e
      | Inr gif_files \<Rightarrow>
          if gif_files = [] then Inr (fs, 0)
          else
            (case os_makedirs fs output_base_directory of
               Inl e \<Rightarrow> Inl e
             | Inr fs1 \<Rightarrow>
                 Inr (foldl (extract_gif input_path output_base_directory is_single_file)
                        (fs1, 0) gif_files)))"

definition gif_fs :: "content node" where
  "gif_fs = Dir True
     [(''gifs'', Dir True
        [(''a.gif'', File True True
            (Picture [\<lparr>im_width = 4, im_height = 3, im_mode = ''P''\<rparr>,
                      \<lparr>im_width = 4, im_height = 3, im_mode = ''P''\<rparr>]))])]"

lemma gif_fs_isdir: "os_path_isdir gif_fs [''gifs'']"
  by (simp add: gif_fs_def os_path_isdir_def)

text \<open>
  Claim C3 (the code does not do what the claim says). With \<^verbatim>\<open>is_single_file = False\<close> the call
  never returns a count: it raises \<^verbatim>\<open>NameError\<close> for every directory, and
  \<^verbatim>\<open>FileNotFoundError\<close> for every other path; no file is searched for and no frame is saved.
\<close>

theorem extract_directory_mode_raises:
  "extract_gif_frames fs input_path output_base_directory False =
     (if os_path_isdir fs input_path then Inl NameError else Inl FileNotFoundError)"
  by (simp add: extract_gif_frames_def)

theorem extract_directory_mode_raises_witness:
  "os_path_isdir gif_fs [''gifs'']
   \<and> extract_gif_frames gif_fs [''gifs''] [''out''] False = Inl NameError"
  using extract_directory_mode_raises[of gif_fs "[''gifs'']" "[''out'']"]
  by (simp add: gif_fs_isdir)

lemma write_file_lookup:
  assumes "write_file fs p c = Inr fs'"
  shows "\<exists>r w. lookup fs' p = Some (File r w c)"
proof -
  from assms have ne: "p \<noteq> []" by (auto simp: write_file_def split: if_splits)
  then obtain d x where p: "p = d @ [x]" by (metis append_butlast_last_id)
  from assms obtain w es where d: "lookup fs d = Some (Dir w es)"
    by (auto simp: write_file_def p split: option.splits node.splits)
  show ?thesis
  proof (cases "map_of es x")
    case None
    then have "fs' = modify_at d (\<lambda>es. es @ [(x, File True True c)]) fs"
      using assms d by (simp add: write_file_def p)
    then show ?thesis using lookup_modify_below[of d _ fs "[x]"] d None
      by (auto simp: p map_add_def)
  next
    case (Some n)
    then obtain r w' c' where n: "n = File r w' c'"
      and fs': "fs' = modify_at d (map (\<lambda>(n, m). if n = x then (n, File r w' c) else (n, m))) fs"
      using assms d by (cases n) (auto simp: write_file_def p)
    have "map_of (map (\<lambda>(n, m). if n = x then (n, (\<lambda>m. File r w' c) m) else (n, m)) es) x
        = map_option (\<lambda>m. File r w' c) (map_of es x)"
      by (simp add: map_of_map_entry)
    then show ?thesis using lookup_modify_below[of d _ fs "[x]"] d Some fs'
      by (auto simp: p)
  qed
qed


section \<open>\<^verbatim>\<open>FileManager.sort_files\<close>\<close>

definition destination_folder_name :: "string \<Rightarrow> string" where
  "destination_folder_name selected_ext =
     (if selected_ext = ''no_extension'' then ''no_extension'' else selected_ext @ ''_files'')"

definition normalized_extension :: "string \<Rightarrow> string" where
  "normalized_extension file_name =
     str_lower (dropWhile (\<lambda>c. c = CHR ''.'') (snd (splitext file_name)))"

definition matches_ext :: "string \<Rightarrow> string \<Rightarrow> bool" where
  "matches_ext selected_ext file_name =
     (let file_extension = normalized_extension file_name
      in (selected_ext = ''no_extension'' \<and> file_extension = [])
         \<or> (selected_ext \<noteq> ''no_extension'' \<and> file_extension = selected_ext))"

definition files_to_move :: "'c node \<Rightarrow> path \<Rightarrow> path \<Rightarrow> string \<Rightarrow> (path \<times> string) list" where
  "files_to_move fs source_dir destination_folder selected_ext =
     concat (map (\<lambda>(rootdir, dirs, files).
                    if rootdir = destination_folder then []
                    else map (\<lambda>file_name. (rootdir @ [file_name], file_name))
                           (filter (matches_ext selected_ext) files))
                 (os_walk fs source_dir))"

definition removable :: "'c node \<Rightarrow> bool" where
  "removable n = (case n of File r w c \<Rightarrow> w | Dir w es \<Rightarrow> w)"

definition os_rename :: "'c node \<Rightarrow> path \<Rightarrow> path \<Rightarrow> pyerror + 'c node" where
  "os_rename fs src dst =
     (case lookup fs src of
        None \<Rightarrow> Inl FileNotFoundError
      | Some n \<Rightarrow>
          if src = [] \<or> dst = [] \<or> \<not> removable n then Inl PermissionError
          else
            (case lookup fs dst of
               Some (Dir w es) \<Rightarrow> Inl IsADirectoryError
             | _ \<Rightarrow>
                 (case lookup (remove_entry fs src) (butlast dst) of
                    Some (Dir w es) \<Rightarrow> Inr (put_entry (remove_entry fs src) dst n)
                  | Some (File r w c) \<Rightarrow> Inl NotADirectoryError
                  | None \<Rightarrow> Inl FileNotFoundError)))"

text \<open>
  \<^verbatim>\<open>shutil.move(src, dst)\<close>, as the standard library defines it. A destination that is a
  directory stands for the entry of that directory named like the source, which must not
  exist. \<^verbatim>\<open>os.rename\<close> is tried first; when it raises an \<^verbatim>\<open>OSError\<close> and the source is a file,
  the file is copied (\<^verbatim>\<open>copy2\<close>) and then unlinked. So a file that can be read but not
  removed leaves a copy at the destination before \<^verbatim>\<open>os.unlink\<close> raises: the result of a
  failed move is the error together with the tree it leaves. The copy is a new entry of the
  destination directory, which can be read and removed. For a source that
  is a directory the fallback (\<^verbatim>\<open>copytree\<close>, \<^verbatim>\<open>rmtree\<close>) is not modelled and the error of
  \<^verbatim>\<open>os.rename\<close> is returned; \<^verbatim>\<open>sort_files\<close> passes only paths that \<^verbatim>\<open>os.walk\<close> lists as files.
\<close>

definition shutil_copy2 :: "'c node \<Rightarrow> path \<Rightarrow> path \<Rightarrow> pyerror + 'c node" where
  "shutil_copy2 fs src dst =
     (let dst = (if os_path_isdir fs dst \<and> src \<noteq> [] then dst @ [last src] else dst) in
      case lookup fs src of
        None \<Rightarrow> Inl FileNotFoundError
      | Some (Dir w es) \<Rightarrow> Inl IsADirectoryError
      | Some (File r w c) \<Rightarrow>
          if \<not> r then Inl PermissionError
          else if dst = [] then Inl IsADirectoryError
          else
            (case lookup fs dst of
               Some (Dir w' es) \<Rightarrow> Inl IsADirectoryError
             | _ \<Rightarrow>
                 (case lookup fs (butlast dst) of
                    Some (Dir w' es) \<Rightarrow> Inr (put_entry fs dst (File True True c))
                  | Some (File r' w' c') \<Rightarrow> Inl NotADirectoryError
                  | None \<Rightarrow> Inl FileNotFoundError)))"

definition shutil_move :: "'c node \<Rightarrow> path \<Rightarrow> path \<Rightarrow> pyerror \<times> 'c node + 'c node" where
  "shutil_move fs src dst =
     (if os_path_isdir fs dst \<and> src = dst then Inr fs
      else if os_path_isdir fs dst \<and> (src = [] \<or> os_path_exists fs (dst @ [last src]))
      then Inl (ShutilError, fs)
      else
        (let real_dst = (if os_path_isdir fs dst then dst @ [last src] else dst) in
         case os_rename fs src real_dst of
           Inr fs' \<Rightarrow> Inr fs'
         | Inl e \<Rightarrow>
             if os_path_isdir fs src then Inl (e, fs)
             else
               (case shutil_copy2 fs src real_dst of
                  Inl e' \<Rightarrow> Inl (e', fs)
                | Inr fs1 \<Rightarrow>
                    (case os_remove fs1 src of
                       Inl e'' \<Rightarrow> Inl (e'', fs1)
                     | Inr fs2 \<Rightarrow> Inr fs2))))"

text \<open>
  The body of the move loop. \<^verbatim>\<open>except Exception\<close> catches every error of the resolver and of
  \<^verbatim>\<open>shutil.move\<close>; the loop goes on with the tree the failed move left.
\<close>

fun move_file ::
  "path \<Rightarrow> 'c node \<times> nat \<times> nat \<Rightarrow> path \<times> string \<Rightarrow> 'c node \<times> nat \<times> nat" where
  "move_file destination_folder (fs, moved_count, skipped_count) (original_full_path, file_name_only) =
     (let unique_filename = get_unique_filename fs destination_folder file_name_only;
          destination_path = destination_folder @ [unique_filename]
      in case shutil_move fs original_full_path destination_path of
           Inl (e, fs') \<Rightarrow> (fs', moved_count, skipped_count + 1)
         | Inr fs' \<Rightarrow> (fs', moved_count + 1, skipped_count))"

definition sort_files :: "'c node \<Rightarrow> path \<Rightarrow> string \<Rightarrow> pyerror + 'c node \<times> nat \<times> nat" where
  "sort_files fs source_dir selected_ext =
     (let destination_folder = source_dir @ [destination_folder_name selected_ext]
      in case os_makedirs fs destination_folder of
           Inl e \<Rightarrow> Inl e
         | Inr fs1 \<Rightarrow>
             Inr (foldl (move_file destination_folder) (fs1, 0, 0)
                    (files_to_move fs1 source_dir destination_folder selected_ext)))"


subsection \<open>Sorting twice\<close>

text \<open>
  Paths are lists of components, so \<^verbatim>\<open>os.path.join\<close> is \<open>@\<close> and the comparison of
  \<^verbatim>\<open>os.path.abspath\<close> values in the scan is equality of paths; an extension is a single
  component (it holds no path separator). Whether a move fails depends on the tree alone.
\<close>







































section \<open>What the operations return\<close>

text \<open>
  Python values, as far as the \<^verbatim>\<open>return\<close> statements of the five operations build them, and
  the text of each log line.
\<close>

datatype pyval = PyInt int | PyStr string | PyList "pyval list" | PyTuple "pyval list"

definition quoted :: "string \<Rightarrow> string" where
  "quoted s = CHR 0x27 # s @ [CHR 0x27]"

definition path_str :: "path \<Rightarrow> string" where
  "path_str p = (if p = [] then ''/'' else concat (map (\<lambda>c. CHR ''/'' # c) p))"

fun error_str :: "pyerror \<Rightarrow> string" where
  "error_str FileNotFoundError = ''[Errno 2] No such file or directory''"
| "error_str PermissionError = ''[Errno 13] Permission denied''"
| "error_str IsADirectoryError = ''[Errno 21] Is a directory''"
| "error_str NotADirectoryError = ''[Errno 20] Not a directory''"
| "error_str FileExistsError = ''[Errno 17] File exists''"
| "error_str DirectoryNotEmpty = ''[Errno 39] Directory not empty''"
| "error_str e = ''error''"

fun render_event :: "event \<Rightarrow> string" where
  "render_event StartScan = ''Starting duplicate scan...''"
| "render_event (IndexingReference d) =
     ''Indexing files in reference directory: '' @ quoted (path_str d) @ ''...''"
| "render_event (ErrorReading p e) =
     ''Error reading file '' @ quoted (path_str p) @ '': '' @ error_str e @ '': '' @ quoted (path_str p)"
| "render_event (IndexingComplete n) =
     ''Indexing complete. Found '' @ str_of_nat n @ '' unique files in reference.''"
| "render_event (CheckingDirectory d) =
     CHR 0x0A # ''Checking for exact file duplicates in directory: '' @ quoted (path_str d) @ ''...''"
| "render_event (DuplicateFound p n) =
     ''Duplicate found: '' @ quoted (path_str p) @ '' (matches '' @ quoted n @ '')''"
| "render_event (Deleted p) = ''Deleted: '' @ quoted (path_str p)"
| "render_event (ErrorChecking p e) =
     ''Error checking file '' @ quoted (path_str p) @ '': '' @ error_str e @ '': '' @ quoted (path_str p)"
| "render_event StartCleanup = ''Starting empty folder cleanup...''"
| "render_event (FoundEmptyFolder p) =
     ''Found empty folder (will not delete in dry run): '' @ quoted (path_str p)"
| "render_event (DeletedEmptyFolder p) = ''Deleted empty folder: '' @ quoted (path_str p)"
| "render_event (ErrorAccessingFolder p e) =
     ''Error accessing or deleting folder '' @ quoted (path_str p) @ '': '' @ error_str e
       @ '': '' @ quoted (path_str p)"

definition log_lines :: "event list \<Rightarrow> pyval" where
  "log_lines evs = PyList (map (\<lambda>ev. PyStr (render_event ev)) evs)"

definition sort_files_return :: "'c node \<times> nat \<times> nat \<Rightarrow> pyval" where
  "sort_files_return res = PyTuple [PyInt (int (fst (snd res))), PyInt (int (snd (snd res)))]"

definition find_duplicates_return :: "'c node \<times> nat \<times> nat \<times> event list \<Rightarrow> pyval" where
  "find_duplicates_return res =
     PyTuple [PyInt (int (fd_found res)), PyInt (int (fd_deleted res)), log_lines (fd_log res)]"

definition delete_empty_folders_return :: "'c node \<times> nat \<times> event list \<Rightarrow> pyval" where
  "delete_empty_folders_return res = PyTuple [PyInt (int (de_count res)), log_lines (de_log res)]"

definition batch_process_images_return :: "content node \<times> nat \<Rightarrow> pyval" where
  "batch_process_images_return res = PyInt (int (snd res))"

definition extract_gif_frames_return :: "content node \<times> nat \<Rightarrow> pyval" where
  "extract_gif_frames_return res = PyInt (int (snd res))"

fun is_py_str :: "pyval \<Rightarrow> bool" where
  "is_py_str (PyStr s) = True"
| "is_py_str v = False"

fun is_operation_result :: "pyval \<Rightarrow> bool" where
  "is_operation_result (PyTuple [PyInt succeeded, PyInt failed, PyList lines]) = list_all is_py_str lines"
| "is_operation_result v = False"

lemma log_lines_strings: "\<exists>ls. log_lines evs = PyList ls \<and> list_all is_py_str ls"
  by (simp add: log_lines_def list_all_iff)

text \<open>
  Claim C4, as amended. \<^verbatim>\<open>find_duplicates\<close> returns a triple of two counts and the list of
  log lines; \<^verbatim>\<open>delete_empty_folders\<close> a pair of one count and the log lines;
  \<^verbatim>\<open>sort_files\<close> a pair of two counts and no log; \<^verbatim>\<open>batch_process_images\<close> and
  \<^verbatim>\<open>extract_gif_frames\<close> a single count.
\<close>

theorem return_shapes:
  "is_operation_result (find_duplicates_return (find_duplicates h fs reference_dir check_dir dry_run))
   \<and> (\<exists>n ls. delete_empty_folders_return (delete_empty_folders fs' target_dir dry_run')
                 = PyTuple [PyInt n, PyList ls] \<and> list_all is_py_str ls)
   \<and> (\<exists>moved skipped. sort_files_return sort_result = PyTuple [PyInt moved, PyInt skipped])
   \<and> (\<exists>n. batch_process_images_return batch_result = PyInt n)
   \<and> (\<exists>n. extract_gif_frames_return extract_result = PyInt n)"
  by (simp add: find_duplicates_return_def delete_empty_folders_return_def sort_files_return_def
      batch_process_images_return_def extract_gif_frames_return_def log_lines_def list_all_iff)

definition empty_fs :: "content node" where
  "empty_fs = Dir True []"

lemma empty_fs_sort:
  "sort_files empty_fs [] ''jpg'' = Inr (Dir True [(''jpg_files'', Dir True [])], 0, 0)"
  by (simp add: sort_files_def destination_folder_name_def os_makedirs.simps[of _ "[x]" for x]
      os_makedirs.simps[of _ "[]"] os_mkdir_def os_path_exists_def os_path_isdir_def empty_fs_def
      files_to_move_def os_walk_def dirnames_def filenames_def)

lemma empty_fs_batch:
  "batch_process_images can_write empty_fs [] [] (Finite 1 (- 1)) ''png'' = Inr (empty_fs, 0)"
  by (simp add: batch_process_images_def os_makedirs.simps[of _ "[]"] os_mkdir_def
      os_path_exists_def os_path_isdir_def empty_fs_def os_listdir_def)

text \<open>
  Claim C4, as stated, fails: the value \<^verbatim>\<open>delete_empty_folders\<close> returns on \<^verbatim>\<open>A/B\<close> is a
  pair of a count and the lines; on an empty directory \<^verbatim>\<open>sort_files\<close> returns a pair of two
  counts and \<^verbatim>\<open>batch_process_images\<close> returns a single count.
\<close>

theorem return_shapes_counterexample:
  "delete_empty_folders_return (delete_empty_folders (nested_fs ''A'' ''B'') [] False)
     = PyTuple [PyInt 2, PyList [PyStr ''Starting empty folder cleanup...'',
                                 PyStr (''Deleted empty folder: '' @ quoted ''/A/B''),
                                 PyStr (''Deleted empty folder: '' @ quoted ''/A'')]]
   \<and> \<not> is_operation_result
        (delete_empty_folders_return (delete_empty_folders (nested_fs ''A'' ''B'') [] False))
   \<and> sort_files empty_fs [] ''jpg'' = Inr (Dir True [(''jpg_files'', Dir True [])], 0, 0)
   \<and> sort_files_return (Dir True [(''jpg_files'', Dir True [])] :: content node, 0, 0)
       = PyTuple [PyInt 0, PyInt 0]
   \<and> \<not> is_operation_result
        (sort_files_return (Dir True [(''jpg_files'', Dir True [])] :: content node, 0, 0))
   \<and> batch_process_images (\<lambda>fmt m. True) empty_fs [] [] (Finite 1 (- 1)) ''png'' = Inr (empty_fs, 0)
   \<and> batch_process_images_return (empty_fs, 0) = PyInt 0
   \<and> \<not> is_operation_result (batch_process_images_return (empty_fs, 0))"
  by (simp add: nested_real_run delete_empty_folders_return_def de_count_def de_log_def
      log_lines_def path_str_def sort_files_return_def batch_process_images_return_def
      empty_fs_sort empty_fs_batch)

end
